theory Spec2Isabelle
  imports Complex_Main
begin

section \<open>The Ring camera (src/api/ring-camera.ts)\<close>

text \<open>
  A shallow embedding of the class \<open>RingCamera\<close> and of the helper
  \<open>getBatteryLevel\<close>. The REST transport, the clock and the scheduler are the
  environment: what the transport answers is an argument of every operation that awaits
  a request, and everything the class does to the outside (requests, delays, logged
  errors) is appended, in order, to the field \<open>effects\<close> of the camera state.
\<close>

subsection \<open>JavaScript values\<close>

text \<open>
  A JavaScript number is \<open>NaN\<close>, an infinity (\<open>Infinity True\<close> is the negative
  one) or a finite value. Finite values are kept exact (a rational); the program only
  compares them, tests them for \<open>NaN\<close> and passes them on.
\<close>

datatype number = NaN | Infinity bool | Num rat

definition isNaN :: "number \<Rightarrow> bool" where
  "isNaN x = (x = NaN)"

text \<open>Decimal rendering of a natural number, as a template literal interpolates it.\<close>

definition digitChar :: "nat \<Rightarrow> char" where
  "digitChar d = ''0123456789'' ! d"

function showNat :: "nat \<Rightarrow> string" where
  "showNat n = (if n < 10 then [digitChar n] else showNat (n div 10) @ [digitChar (n mod 10)])"
  by pat_completeness auto
termination
  by (relation "measure (\<lambda>n. n)") auto

declare showNat.simps [simp del]

text \<open>
  What an awaited operation can throw: a rejection of the transport
  (\<open>restClient.request\<close>), or a JavaScript \<open>Error\<close> with its message.
\<close>

datatype error = TransportError string | Error string

subsection \<open>The transport's requests\<close>

text \<open>
  \<open>clientApi\<close> lives in rest-client.ts, which is not part of the sources at hand; its
  application to a path is kept symbolic.
\<close>

datatype url = clientApi string

record RequestOptions =
  req_method :: "string option"
  req_url :: url
  req_data :: "nat list option"
  req_json :: "bool option"
  req_responseType :: "string option"

datatype effect = Request RequestOptions | Delay nat | LogError error

subsection \<open>Records of ring-types.ts, as far as the class reads them\<close>

text \<open>
  ring-types.ts is not among the sources at hand; the records have the fields the class
  reads and writes. An optional field is an \<open>option\<close>, \<open>None\<close> for \<open>undefined\<close>.
  The fields \<open>id\<close> and \<open>kind\<close> of \<open>CameraData\<close> are \<open>cam_id\<close> and
  \<open>device_kind\<close> here (\<open>id\<close> is a constant of HOL, \<open>kind\<close> also a field of
  \<open>ActiveDing\<close>), and the field \<open>id\<close> of the class is \<open>ident\<close>. Timestamps are
  whole milliseconds.
\<close>

datatype battery_field = BatteryNumber number | BatteryString string | BatteryUndefined

record siren_status_t =
  seconds_remaining :: nat

record CameraData =
  cam_id :: nat
  device_kind :: string
  description :: string
  led_status :: "string option"
  siren_status :: "siren_status_t option"
  battery_life :: battery_field

record ActiveDing =
  kind :: string
  motion :: bool

record SnapshotTimestamp =
  timestamp :: int

record timestamps_response =
  timestamps :: "SnapshotTimestamp list"
  responseTimestamp :: int

subsection \<open>The state of a camera\<close>

text \<open>
  Active dings are JavaScript objects, compared by reference (\<open>!==\<close>): an active ding
  is an address, and a store \<open>address \<Rightarrow> ActiveDing\<close> gives its fields. A
  \<open>BehaviorSubject\<close> is the list of the values it has emitted, the initial one first;
  its current value is the last. A \<open>Subject\<close> is the list of its emissions. Pending
  timers carry the time at which they are due and the ding their callback captured.
  \<open>onMotionDetected\<close> is built with \<open>publishReplay(1)\<close> and \<open>refCount()\<close>: the
  camera holds the number of its current subscribers, the value \<open>distinctUntilChanged\<close>
  remembers while the chain is connected, the buffer of the one \<open>ReplaySubject\<close> (it
  outlives a disconnection), and, for stating properties, all that subject has emitted.
  A refresh session (the promise of one \<open>refreshSnapshot\<close> call) is an index into
  \<open>sessions\<close>; while it is pending it keeps the argument \<open>allowStale\<close> of its
  call. A suspended \<open>getSnapshot\<close> call is an index into \<open>calls\<close>, with the session
  it awaits.
\<close>

type_synonym address = nat

datatype promise = Pending bool | Fulfilled | Rejected error

datatype call = Awaiting nat | Returned

record RingCamera =
  ident :: nat
  deviceType :: string
  hasLight :: bool
  hasSiren :: bool
  hasSlowSnapshotRefresh :: bool
  onData :: "CameraData list"
  onNewDing :: "address list"
  onActiveDings :: "address list list"
  motion_refCount :: nat
  motion_key :: "bool option"
  motion_buffer :: "bool option"
  motion_emitted :: "bool list"
  clock :: nat
  timers :: "(nat \<times> address) list"
  refreshSnapshotInProgress :: "nat option"
  sessions :: "promise list"
  calls :: "call list"
  effects :: "effect list"

definition RingCamera_new :: "CameraData \<Rightarrow> RingCamera" where
  "RingCamera_new initialData =
     \<lparr> ident = cam_id initialData,
       deviceType = device_kind initialData,
       hasLight = (led_status initialData \<noteq> None),
       hasSiren = (siren_status initialData \<noteq> None),
       hasSlowSnapshotRefresh = (device_kind initialData = ''doorbell_v3''),
       onData = [initialData],
       onNewDing = [],
       onActiveDings = [[]],
       motion_refCount = 0,
       motion_key = None,
       motion_buffer = None,
       motion_emitted = [],
       clock = 0,
       timers = [],
       refreshSnapshotInProgress = None,
       sessions = [],
       calls = [],
       effects = [] \<rparr>"

definition perform :: "effect \<Rightarrow> RingCamera \<Rightarrow> RingCamera" where
  "perform e cam = cam\<lparr>effects := effects cam @ [e]\<rparr>"

subsection \<open>Snapshot freshness: \<open>updateTimestamp\<close> and \<open>refreshSnapshot\<close>\<close>

definition snapshotTimestampGracePeriod :: int where
  "snapshotTimestampGracePeriod = 10000"

definition timestampsRequest :: "RingCamera \<Rightarrow> RequestOptions" where
  "timestampsRequest cam =
     \<lparr> req_method = Some ''POST'', req_url = clientApi ''snapshots/timestamps'',
       req_data = Some [ident cam], req_json = Some True, req_responseType = None \<rparr>"

text \<open>
  \<open>updateTimestamp\<close>: one request; \<open>timestamps[0]\<close> of an empty array is
  \<open>undefined\<close>, for which the capture time is 0. The result is the pair
  (\<open>timestamp\<close>, \<open>responseTimestamp\<close>).
\<close>

definition updateTimestamp ::
  "error + timestamps_response \<Rightarrow> RingCamera \<Rightarrow> (error + int \<times> int) \<times> RingCamera" where
  "updateTimestamp response cam =
     (let cam' = perform (Request (timestampsRequest cam)) cam in
      case response of
        Inl e \<Rightarrow> (Inl e, cam')
      | Inr r \<Rightarrow>
          (Inr (case timestamps r of [] \<Rightarrow> 0 | t # _ \<Rightarrow> timestamp t, responseTimestamp r), cam'))"

definition slowSnapshots :: "RingCamera \<Rightarrow> bool \<Rightarrow> bool" where
  "slowSnapshots cam allowStale = (hasSlowSnapshotRefresh cam \<and> \<not> allowStale)"

definition snapshotRefreshDelay :: "RingCamera \<Rightarrow> bool \<Rightarrow> nat" where
  "snapshotRefreshDelay cam allowStale = (if slowSnapshots cam allowStale then 2000 else 500)"

definition maxSnapshotRefreshSeconds :: "RingCamera \<Rightarrow> bool \<Rightarrow> nat" where
  "maxSnapshotRefreshSeconds cam allowStale =
     (if slowSnapshots cam allowStale then 600
      else if hasSlowSnapshotRefresh cam then 5
      else 30)"

text \<open>
  The source divides two JavaScript numbers; the quotient is a whole number in each of
  the three cases (lemma \<open>maxSnapshotRefreshAttempts_exact\<close>), so it is a natural
  number here.
\<close>

definition maxSnapshotRefreshAttempts :: "RingCamera \<Rightarrow> bool \<Rightarrow> nat" where
  "maxSnapshotRefreshAttempts cam allowStale =
     (maxSnapshotRefreshSeconds cam allowStale * 1000) div snapshotRefreshDelay cam allowStale"

definition refreshFailed :: "nat \<Rightarrow> error" where
  "refreshFailed attempts =
     Error (''Snapshot failed to refresh after '' @ showNat attempts @ '' attempts'')"

text \<open>
  The \<open>for\<close> loop of \<open>refreshSnapshot\<close>, from the counter \<open>i\<close> on. The transport's
  answer to the request of iteration \<open>i\<close> is \<open>responses i\<close>.
\<close>

function refreshLoop ::
  "(nat \<Rightarrow> error + timestamps_response) \<Rightarrow> nat \<Rightarrow> nat \<Rightarrow> nat \<Rightarrow> RingCamera
     \<Rightarrow> (error + unit) \<times> RingCamera" where
  "refreshLoop responses delay maxAttempts i cam =
     (if i < maxAttempts then
        (case updateTimestamp (responses i) cam of
           (Inl e, cam') \<Rightarrow> (Inl e, cam')
         | (Inr (capture, arrival), cam') \<Rightarrow>
             (let timestampAge = \<bar>arrival - capture\<bar> in
              if timestampAge < snapshotTimestampGracePeriod then (Inr (), cam')
              else refreshLoop responses delay maxAttempts (Suc i) (perform (Delay delay) cam')))
      else (Inl (refreshFailed maxAttempts), cam))"
  by pat_completeness auto
termination
  by (relation "measure (\<lambda>(responses, delay, maxAttempts, i, cam). maxAttempts - i)") auto

declare refreshLoop.simps [simp del]

definition refreshSnapshot ::
  "(nat \<Rightarrow> error + timestamps_response) \<Rightarrow> bool \<Rightarrow> RingCamera \<Rightarrow> (error + unit) \<times> RingCamera" where
  "refreshSnapshot responses allowStale cam =
     refreshLoop responses (snapshotRefreshDelay cam allowStale)
       (maxSnapshotRefreshAttempts cam allowStale) 0 cam"

text \<open>
  For stating what the loop does: the age the loop computes from one answer, the effects
  of \<open>n\<close> iterations that found a stale timestamp, and the number of timestamp
  requests among a camera's effects (the attempts made).
\<close>

definition timestampAge :: "timestamps_response \<Rightarrow> int" where
  "timestampAge r =
     \<bar>responseTimestamp r - (case timestamps r of [] \<Rightarrow> 0 | t # _ \<Rightarrow> timestamp t)\<bar>"

definition staleRounds :: "RingCamera \<Rightarrow> nat \<Rightarrow> nat \<Rightarrow> effect list" where
  "staleRounds cam delay n = concat (replicate n [Request (timestampsRequest cam), Delay delay])"

definition attempts :: "RingCamera \<Rightarrow> nat" where
  "attempts cam = length (filter (\<lambda>e. e = Request (timestampsRequest cam)) (effects cam))"

subsection \<open>\<open>getBatteryLevel\<close>\<close>

text \<open>
  \<open>Number.parseFloat\<close> (ECMAScript): white space is skipped, then the longest prefix
  that is a decimal literal is read: an optional sign, then \<open>Infinity\<close>, or digits
  with an optional fraction, or a dot and digits, each with an optional exponent. With no
  such prefix the result is \<open>NaN\<close>. Of ECMAScript's white space the ASCII
  characters are covered (a \<open>char\<close> is a byte).
\<close>

definition isWhiteSpace :: "char \<Rightarrow> bool" where
  "isWhiteSpace c = (c \<in> set [CHR '' '', CHR 0x09, CHR 0x0A, CHR 0x0B, CHR 0x0C, CHR 0x0D])"

definition isDigit :: "char \<Rightarrow> bool" where
  "isDigit c = (c \<in> set ''0123456789'')"

definition digitValue :: "char \<Rightarrow> nat" where
  "digitValue c = length (takeWhile (\<lambda>d. d \<noteq> c) ''0123456789'')"

definition digitsValue :: "string \<Rightarrow> nat" where
  "digitsValue ds = foldl (\<lambda>n c. 10 * n + digitValue c) 0 ds"

definition splitSign :: "string \<Rightarrow> bool \<times> string" where
  "splitSign s =
     (case s of
        [] \<Rightarrow> (False, s)
      | c # r \<Rightarrow> if c = CHR ''-'' then (True, r) else if c = CHR ''+'' then (False, r) else (False, s))"

definition splitFraction :: "string \<Rightarrow> string \<times> string" where
  "splitFraction s =
     (case s of
        [] \<Rightarrow> ([], s)
      | c # r \<Rightarrow> if c = CHR ''.'' then (takeWhile isDigit r, dropWhile isDigit r) else ([], s))"

text \<open>The factor of an exponent part, 1 when the text has none.\<close>

definition exponentFactor :: "string \<Rightarrow> rat" where
  "exponentFactor s =
     (case s of
        [] \<Rightarrow> 1
      | c # r \<Rightarrow>
          if c = CHR ''e'' \<or> c = CHR ''E'' then
            (let (negative, ds) = splitSign r; digits = takeWhile isDigit ds in
             if digits = [] then 1
             else if negative then 1 / 10 ^ digitsValue digits
             else 10 ^ digitsValue digits)
          else 1)"

definition parseFloat :: "string \<Rightarrow> number" where
  "parseFloat s =
     (let (negative, u) = splitSign (dropWhile isWhiteSpace s) in
      if take 8 u = ''Infinity'' then Infinity negative
      else
        (let intDigits = takeWhile isDigit u;
             (fracDigits, rest) = splitFraction (dropWhile isDigit u)
         in if intDigits = [] \<and> fracDigits = [] then NaN
            else
              (let magnitude =
                     of_nat (digitsValue (intDigits @ fracDigits)) / 10 ^ length fracDigits
                       * exponentFactor rest
               in Num (if negative then - magnitude else magnitude))))"

text \<open>
  \<open>getBatteryLevel\<close>; \<open>None\<close> is JavaScript's \<open>null\<close>. \<open>parseFloat\<close> turns
  its argument into a string first, \<open>undefined\<close> into the text "undefined".
\<close>

definition getBatteryLevel :: "CameraData \<Rightarrow> number option" where
  "getBatteryLevel d =
     (let batteryLevel =
            (case battery_life d of
               BatteryNumber n \<Rightarrow> n
             | BatteryString s \<Rightarrow> parseFloat s
             | BatteryUndefined \<Rightarrow> parseFloat ''undefined'')
      in if isNaN batteryLevel then None else Some batteryLevel)"

text \<open>
  For stating which texts parse: after white space and an optional sign, the text starts
  with a digit, with a dot and a digit, or with \<open>Infinity\<close>.
\<close>

definition numericText :: "string \<Rightarrow> bool" where
  "numericText s =
     (let u = snd (splitSign (dropWhile isWhiteSpace s)) in
      take 8 u = ''Infinity'' \<or>
      (case u of
         [] \<Rightarrow> False
       | c # r \<Rightarrow> isDigit c \<or> (c = CHR ''.'' \<and> (case r of [] \<Rightarrow> False | c' # _ \<Rightarrow> isDigit c'))))"

text \<open>
  A field holds a number when it is a number value other than \<open>NaN\<close> ("not a
  number"), and a numeric text when it is a text that parses.
\<close>

definition holdsNumber :: "battery_field \<Rightarrow> bool" where
  "holdsNumber v = (case v of BatteryNumber n \<Rightarrow> n \<noteq> NaN | _ \<Rightarrow> False)"

definition holdsNumericText :: "battery_field \<Rightarrow> bool" where
  "holdsNumericText v = (case v of BatteryString s \<Rightarrow> numericText s | _ \<Rightarrow> False)"

subsection \<open>The channels\<close>

text \<open>
  The rxjs operator \<open>distinctUntilChanged\<close> remembers the last value it let through
  and drops a value equal to it (\<open>===\<close>).
\<close>

fun distinctUntilChanged_from :: "'a option \<Rightarrow> 'a list \<Rightarrow> 'a list" where
  "distinctUntilChanged_from prev [] = []"
| "distinctUntilChanged_from prev (x # xs) =
     (if prev = Some x then distinctUntilChanged_from prev xs
      else x # distinctUntilChanged_from (Some x) xs)"

definition distinctUntilChanged :: "'a list \<Rightarrow> 'a list" where
  "distinctUntilChanged xs = distinctUntilChanged_from None xs"

definition data :: "RingCamera \<Rightarrow> CameraData" where
  "data cam = last (onData cam)"

definition activeDings :: "RingCamera \<Rightarrow> address list" where
  "activeDings cam = last (onActiveDings cam)"

definition updateData :: "CameraData \<Rightarrow> RingCamera \<Rightarrow> RingCamera" where
  "updateData update cam = cam\<lparr>onData := onData cam @ [update]\<rparr>"

definition batteryLevel :: "RingCamera \<Rightarrow> number option" where
  "batteryLevel cam = getBatteryLevel (data cam)"

text \<open>
  The emissions of \<open>onBatteryLevel\<close>, for a subscriber that has been there since the
  camera was constructed.
\<close>

definition onBatteryLevel :: "RingCamera \<Rightarrow> number option list" where
  "onBatteryLevel cam = distinctUntilChanged (map getBatteryLevel (onData cam))"

definition onDoorbellPressed :: "(address \<Rightarrow> ActiveDing) \<Rightarrow> RingCamera \<Rightarrow> address list" where
  "onDoorbellPressed store cam = filter (\<lambda>ding. kind (store ding) = ''ding'') (onNewDing cam)"

subsection \<open>\<open>onMotionDetected\<close>\<close>

text \<open>
  The projection of line 54; the store gives the fields of the ding objects.
\<close>

definition someMotion :: "(address \<Rightarrow> ActiveDing) \<Rightarrow> address list \<Rightarrow> bool" where
  "someMotion store dings = list_ex (\<lambda>ding. motion (store ding) \<or> kind (store ding) = ''motion'') dings"

text \<open>
  What the connected chain does with one value of \<open>onActiveDings\<close>: \<open>map\<close> computes
  the boolean, \<open>distinctUntilChanged\<close> drops it when it equals the value it remembers,
  and otherwise the \<open>ReplaySubject\<close> buffers it and emits it to the subscribers.
\<close>

definition onMotionDetected_next ::
  "(address \<Rightarrow> ActiveDing) \<Rightarrow> address list \<Rightarrow> RingCamera \<Rightarrow> RingCamera" where
  "onMotionDetected_next store dings cam =
     (let computed = someMotion store dings in
      if motion_key cam = Some computed then cam
      else cam\<lparr>motion_key := Some computed, motion_buffer := Some computed,
               motion_emitted := motion_emitted cam @ [computed]\<rparr>)"

text \<open>
  \<open>onActiveDings.next(dings)\<close>: the \<open>BehaviorSubject\<close> takes the value; the chain of
  \<open>onMotionDetected\<close> sees it only while \<open>refCount\<close> keeps it connected, that is
  while there is a subscriber.
\<close>

definition onActiveDings_next ::
  "(address \<Rightarrow> ActiveDing) \<Rightarrow> address list \<Rightarrow> RingCamera \<Rightarrow> RingCamera" where
  "onActiveDings_next store dings cam =
     (let cam' = cam\<lparr>onActiveDings := onActiveDings cam @ [dings]\<rparr> in
      if 0 < motion_refCount cam' then onMotionDetected_next store dings cam' else cam')"

text \<open>
  \<open>onMotionDetected.subscribe\<close>: the new subscriber first gets the buffer of the
  \<open>ReplaySubject\<close>. If it is the only subscriber, \<open>refCount\<close> then connects the
  chain: a fresh \<open>distinctUntilChanged\<close> receives the current value of
  \<open>onActiveDings\<close>. The result is what the new subscriber receives during the call.
\<close>

definition onMotionDetected_subscribe ::
  "(address \<Rightarrow> ActiveDing) \<Rightarrow> RingCamera \<Rightarrow> bool list \<times> RingCamera" where
  "onMotionDetected_subscribe store cam =
     (let replayed = (case motion_buffer cam of None \<Rightarrow> [] | Some buffered \<Rightarrow> [buffered]);
          cam1 = cam\<lparr>motion_refCount := motion_refCount cam + 1\<rparr>;
          cam2 = (if motion_refCount cam = 0
                  then onMotionDetected_next store (activeDings cam1) (cam1\<lparr>motion_key := None\<rparr>)
                  else cam1)
      in (replayed @ drop (length (motion_emitted cam)) (motion_emitted cam2), cam2))"

text \<open>
  A subscriber leaves; with the last one gone the chain is disconnected, and the buffer
  stays.
\<close>

definition onMotionDetected_unsubscribe :: "RingCamera \<Rightarrow> RingCamera" where
  "onMotionDetected_unsubscribe cam = cam\<lparr>motion_refCount := motion_refCount cam - 1\<rparr>"

subsection \<open>Active dings and their timers\<close>

definition processActiveDing ::
  "(address \<Rightarrow> ActiveDing) \<Rightarrow> address \<Rightarrow> RingCamera \<Rightarrow> RingCamera" where
  "processActiveDing store ding cam =
     (let current = activeDings cam;
          cam1 = cam\<lparr>onNewDing := onNewDing cam @ [ding]\<rparr>;
          cam2 = onActiveDings_next store (current @ [ding]) cam1
      in cam2\<lparr>timers := timers cam2 @ [(clock cam2 + 65 * 1000, ding)]\<rparr>)"

text \<open>The callback handed to \<open>setTimeout\<close>, with the ding it captured.\<close>

definition expireDing ::
  "(address \<Rightarrow> ActiveDing) \<Rightarrow> address \<Rightarrow> RingCamera \<Rightarrow> RingCamera" where
  "expireDing store ding cam =
     (let allActiveDings = activeDings cam;
          otherDings = filter (\<lambda>oldDing. oldDing \<noteq> ding) allActiveDings
      in onActiveDings_next store otherDings cam)"

text \<open>
  The environment's clock moves to time \<open>t\<close>: the timers due by then fire, in the
  order in which they were set (all have the same delay), and leave the pending list.
\<close>

definition advanceClock :: "(address \<Rightarrow> ActiveDing) \<Rightarrow> nat \<Rightarrow> RingCamera \<Rightarrow> RingCamera" where
  "advanceClock store t cam =
     foldl (\<lambda>c (due, ding). expireDing store ding c)
       (cam\<lparr>clock := max (clock cam) t, timers := filter (\<lambda>(due, ding). \<not> due \<le> t) (timers cam)\<rparr>)
       (filter (\<lambda>(due, ding). due \<le> t) (timers cam))"

subsection \<open>Commands: \<open>setLight\<close> and \<open>setSiren\<close>\<close>

definition doorbotUrl :: "string \<Rightarrow> RingCamera \<Rightarrow> url" where
  "doorbotUrl path cam = clientApi (''doorbots/'' @ showNat (ident cam) @ ''/'' @ path)"

definition putRequest :: "url \<Rightarrow> RequestOptions" where
  "putRequest u =
     \<lparr> req_method = Some ''PUT'', req_url = u, req_data = None, req_json = None,
       req_responseType = None \<rparr>"

text \<open>
  An \<open>async\<close> method runs up to its \<open>await\<close>, and goes on when the awaited
  promise settles; other operations of the camera may run in between. \<open>setLight_call\<close>
  is the part before the \<open>await\<close>: it returns \<open>Some False\<close> when the method has
  returned, and \<open>None\<close> when it is suspended on the request. \<open>setLight_resume\<close> is
  the part after it, on the state of that later moment, given what the transport
  answered. \<open>setLight\<close> is the two run back to back.
\<close>

definition setLight_call :: "bool \<Rightarrow> RingCamera \<Rightarrow> bool option \<times> RingCamera" where
  "setLight_call on cam =
     (if \<not> hasLight cam then (Some False, cam)
      else
        (let state = (if on then ''on'' else ''off'') in
         (None, perform (Request (putRequest (doorbotUrl (''floodlight_light_'' @ state) cam))) cam)))"

definition setLight_resume ::
  "bool \<Rightarrow> error + unit \<Rightarrow> RingCamera \<Rightarrow> (error + bool) \<times> RingCamera" where
  "setLight_resume on response cam =
     (let state = (if on then ''on'' else ''off'') in
      case response of
        Inl e \<Rightarrow> (Inl e, cam)
      | Inr _ \<Rightarrow> (Inr True, updateData ((data cam)\<lparr>led_status := Some state\<rparr>) cam))"

definition setLight :: "bool \<Rightarrow> error + unit \<Rightarrow> RingCamera \<Rightarrow> (error + bool) \<times> RingCamera" where
  "setLight on response cam =
     (case setLight_call on cam of
        (Some result, cam') \<Rightarrow> (Inr result, cam')
      | (None, cam') \<Rightarrow> setLight_resume on response cam')"

definition setSiren_call :: "bool \<Rightarrow> RingCamera \<Rightarrow> bool option \<times> RingCamera" where
  "setSiren_call on cam =
     (if \<not> hasSiren cam then (Some False, cam)
      else
        (let state = (if on then ''on'' else ''off'') in
         (None, perform (Request (putRequest (doorbotUrl (''siren_'' @ state) cam))) cam)))"

definition setSiren_resume ::
  "bool \<Rightarrow> error + unit \<Rightarrow> RingCamera \<Rightarrow> (error + bool) \<times> RingCamera" where
  "setSiren_resume on response cam =
     (case response of
        Inl e \<Rightarrow> (Inl e, cam)
      | Inr _ \<Rightarrow>
          (Inr True,
           updateData ((data cam)\<lparr>siren_status := Some \<lparr>seconds_remaining = 1\<rparr>\<rparr>) cam))"

definition setSiren :: "bool \<Rightarrow> error + unit \<Rightarrow> RingCamera \<Rightarrow> (error + bool) \<times> RingCamera" where
  "setSiren on response cam =
     (case setSiren_call on cam of
        (Some result, cam') \<Rightarrow> (Inr result, cam')
      | (None, cam') \<Rightarrow> setSiren_resume on response cam')"

text \<open>The requests a camera has issued, among its effects.\<close>

definition requests :: "RingCamera \<Rightarrow> RequestOptions list" where
  "requests cam = concat (map (\<lambda>e. case e of Request r \<Rightarrow> [r] | _ \<Rightarrow> []) (effects cam))"

subsection \<open>\<open>getSnapshot\<close> and the refresh session\<close>

definition imageRequest :: "RingCamera \<Rightarrow> RequestOptions" where
  "imageRequest cam =
     \<lparr> req_method = None, req_url = clientApi (''snapshots/image/'' @ showNat (ident cam)),
       req_data = None, req_json = None, req_responseType = Some ''arraybuffer'' \<rparr>"

text \<open>
  The part of \<open>getSnapshot\<close> before its \<open>await\<close>: the slot keeps the session it
  holds, or takes the promise of a new \<open>refreshSnapshot\<close> call (\<open>Pending\<close> with the
  call's argument); the call is then suspended on the session in the slot.
\<close>

definition getSnapshot_call :: "bool \<Rightarrow> RingCamera \<Rightarrow> RingCamera" where
  "getSnapshot_call allowStale cam =
     (let (session, cam1) =
            (case refreshSnapshotInProgress cam of
               Some s \<Rightarrow> (s, cam)
             | None \<Rightarrow> (length (sessions cam), cam\<lparr>sessions := sessions cam @ [Pending allowStale]\<rparr>));
          cam2 = cam1\<lparr>refreshSnapshotInProgress := Some session\<rparr>
      in cam2\<lparr>calls := calls cam2 @ [Awaiting session]\<rparr>)"

text \<open>
  A pending session runs its loop to the end, against the transport's answers, and its
  promise settles with the loop's outcome. The iterations of one loop are gathered in one
  step: how they interleave with other operations changes neither the outcome nor the
  slot.
\<close>

definition settle :: "error + unit \<Rightarrow> promise" where
  "settle outcome = (case outcome of Inl e \<Rightarrow> Rejected e | Inr _ \<Rightarrow> Fulfilled)"

definition runSession ::
  "nat \<Rightarrow> (nat \<Rightarrow> error + timestamps_response) \<Rightarrow> RingCamera \<Rightarrow> RingCamera" where
  "runSession s responses cam =
     (if s < length (sessions cam) then
        (case sessions cam ! s of
           Pending allowStale \<Rightarrow>
             (case refreshSnapshot responses allowStale cam of
                (outcome, cam') \<Rightarrow> cam'\<lparr>sessions := (sessions cam')[s := settle outcome]\<rparr>)
         | _ \<Rightarrow> cam)
      else cam)"

text \<open>
  The part of \<open>getSnapshot\<close> after its \<open>await\<close>, for the suspended call \<open>c\<close>,
  once the session it awaits has settled (\<open>None\<close>: the call cannot go on yet). The
  method returns the promise of the image request, so its own result is what the
  transport answers to that request.
\<close>

definition getSnapshot_resume ::
  "nat \<Rightarrow> error + string \<Rightarrow> RingCamera \<Rightarrow> ((error + string) \<times> RingCamera) option" where
  "getSnapshot_resume c imageResponse cam =
     (if c < length (calls cam) then
        (case calls cam ! c of
           Returned \<Rightarrow> None
         | Awaiting s \<Rightarrow>
             (if s < length (sessions cam) then
                (case sessions cam ! s of
                   Pending _ \<Rightarrow> None
                 | settled \<Rightarrow>
                     (let cam1 = (case settled of Rejected e \<Rightarrow> perform (LogError e) cam | _ \<Rightarrow> cam);
                          cam2 = cam1\<lparr>refreshSnapshotInProgress := None\<rparr>;
                          cam3 = perform (Request (imageRequest cam2)) cam2
                      in Some (imageResponse, cam3\<lparr>calls := (calls cam3)[c := Returned]\<rparr>)))
              else None))
      else None)"

text \<open>One call of \<open>getSnapshot\<close> with nothing else running in between.\<close>

definition getSnapshot ::
  "bool \<Rightarrow> (nat \<Rightarrow> error + timestamps_response) \<Rightarrow> error + string \<Rightarrow> RingCamera
     \<Rightarrow> ((error + string) \<times> RingCamera) option" where
  "getSnapshot allowStale responses imageResponse cam =
     (let cam1 = getSnapshot_call allowStale cam;
          c = length (calls cam1) - 1;
          cam2 = (case calls cam1 ! c of
                    Awaiting s \<Rightarrow> runSession s responses cam1
                  | Returned \<Rightarrow> cam1)
      in getSnapshot_resume c imageResponse cam2)"

text \<open>
  Schedules: the operations on the snapshot of one camera, in the order in which the
  event loop runs them. A step that cannot run leaves the state as it is.
\<close>

datatype event =
    GetSnapshot bool
  | RunSession nat "nat \<Rightarrow> error + timestamps_response"
  | Resume nat "error + string"

fun step :: "RingCamera \<Rightarrow> event \<Rightarrow> RingCamera" where
  "step cam (GetSnapshot allowStale) = getSnapshot_call allowStale cam"
| "step cam (RunSession s responses) = runSession s responses cam"
| "step cam (Resume c imageResponse) =
     (case getSnapshot_resume c imageResponse cam of None \<Rightarrow> cam | Some (_, cam') \<Rightarrow> cam')"

definition run :: "event list \<Rightarrow> RingCamera \<Rightarrow> RingCamera" where
  "run schedule cam = foldl step cam schedule"

definition isPending :: "promise \<Rightarrow> bool" where
  "isPending p = (case p of Pending _ \<Rightarrow> True | _ \<Rightarrow> False)"

definition inFlight :: "RingCamera \<Rightarrow> nat" where
  "inFlight cam = length (filter isPending (sessions cam))"

subsection \<open>Notions for stating the properties\<close>

text \<open>
  The answers to the first \<open>n\<close> timestamp requests all arrive, and each carries an
  age of at least the grace period.
\<close>

definition staleBefore :: "(nat \<Rightarrow> error + timestamps_response) \<Rightarrow> nat \<Rightarrow> bool" where
  "staleBefore responses n =
     (\<forall>k<n. case responses k of
               Inr r \<Rightarrow> snapshotTimestampGracePeriod \<le> timestampAge r
             | Inl e \<Rightarrow> False)"

text \<open>
  A camera record, the record of a camera with slow snapshot refresh, and a transport
  answer, for the examples.
\<close>

definition exampleData :: CameraData where
  "exampleData =
     \<lparr> cam_id = 7, device_kind = ''doorbell_v2'', description = ''Front door'',
       led_status = None, siren_status = None, battery_life = BatteryNumber (Num 55) \<rparr>"

definition slowData :: CameraData where
  "slowData = exampleData\<lparr>device_kind := ''doorbell_v3''\<rparr>"

definition sample :: "int \<Rightarrow> int \<Rightarrow> error + timestamps_response" where
  "sample capture arrival = Inr \<lparr> timestamps = [\<lparr>timestamp = capture\<rparr>], responseTimestamp = arrival \<rparr>"

text \<open>A sequence of \<open>updateData\<close> calls.\<close>

definition updateAll :: "CameraData list \<Rightarrow> RingCamera \<Rightarrow> RingCamera" where
  "updateAll updates cam = foldl (\<lambda>c update. updateData update c) cam updates"

text \<open>
  A store for the examples: the object at address 1 is a ding of kind \<open>motion\<close> whose
  motion flag is not set, the one at address 2 a doorbell press, every other one an
  on-demand ding with the motion flag set. The example camera has recorded the ding at
  address 2 at time 0.
\<close>

definition exampleStore :: "address \<Rightarrow> ActiveDing" where
  "exampleStore a =
     (if a = 1 then \<lparr>kind = ''motion'', motion = False\<rparr>
      else if a = 2 then \<lparr>kind = ''ding'', motion = False\<rparr>
      else \<lparr>kind = ''on_demand'', motion = True\<rparr>)"

definition exampleCamera :: RingCamera where
  "exampleCamera = processActiveDing exampleStore 2 (RingCamera_new exampleData)"

text \<open>
  For the motion channel: in every reachable state the buffer is the last value emitted,
  and while there is a subscriber the remembered value is the buffer and is the value of
  the current active set.
\<close>

definition motionCoherent :: "(address \<Rightarrow> ActiveDing) \<Rightarrow> RingCamera \<Rightarrow> bool" where
  "motionCoherent store cam =
     (motion_buffer cam =
        (if motion_emitted cam = [] then None else Some (last (motion_emitted cam))) \<and>
      (0 < motion_refCount cam \<longrightarrow>
         motion_key cam = Some (someMotion store (activeDings cam)) \<and>
         motion_buffer cam = Some (someMotion store (activeDings cam))))"

text \<open>
  Cameras for the examples. On \<open>watchedCamera\<close> a subscriber has joined.
  \<open>leftCamera\<close>: a subscriber has joined and left. \<open>motionCamera\<close>: a subscriber
  has joined and the ding at address 1 (kind \<open>motion\<close>) was recorded.
  \<open>staleCamera\<close>: after that the subscriber has left, and the clock has moved by 65
  seconds. \<open>flaggedCamera\<close>: the same with the ding at address 3 (motion flag set), and
  its timer's callback run in place of the clock.
\<close>

definition watchedCamera :: RingCamera where
  "watchedCamera = snd (onMotionDetected_subscribe exampleStore (RingCamera_new exampleData))"

definition leftCamera :: RingCamera where
  "leftCamera = onMotionDetected_unsubscribe watchedCamera"

definition motionCamera :: RingCamera where
  "motionCamera = processActiveDing exampleStore 1 watchedCamera"

definition staleCamera :: RingCamera where
  "staleCamera = advanceClock exampleStore 65000 (onMotionDetected_unsubscribe motionCamera)"

definition flaggedCamera :: RingCamera where
  "flaggedCamera =
     expireDing exampleStore 3
       (onMotionDetected_unsubscribe (processActiveDing exampleStore 3 watchedCamera))"

text \<open>A camera record with a light and a siren, for the examples.\<close>

definition lightData :: CameraData where
  "lightData = exampleData\<lparr>led_status := Some ''off'', siren_status := Some \<lparr>seconds_remaining = 0\<rparr>\<rparr>"

text \<open>
  What the coalescing of \<open>getSnapshot\<close> calls looks at: the slot, the sessions and the
  suspended calls.
\<close>

definition view :: "RingCamera \<Rightarrow> nat option \<times> promise list \<times> call list" where
  "view cam = (refreshSnapshotInProgress cam, sessions cam, calls cam)"

text \<open>
  The slot is coherent when every pending session is the one in the slot. A caller
  resumes in order when the slot, at that moment, holds no pending session; a schedule is
  in order when each of its steps is.
\<close>

definition coalesced :: "RingCamera \<Rightarrow> bool" where
  "coalesced cam =
     ((\<forall>s < length (sessions cam). isPending (sessions cam ! s) \<longrightarrow>
          refreshSnapshotInProgress cam = Some s) \<and>
      (\<forall>s. refreshSnapshotInProgress cam = Some s \<longrightarrow> s < length (sessions cam)))"

definition inOrder :: "RingCamera \<Rightarrow> event \<Rightarrow> bool" where
  "inOrder cam ev =
     (case ev of
        Resume c imageResponse \<Rightarrow>
          (case refreshSnapshotInProgress cam of
             None \<Rightarrow> True
           | Some s \<Rightarrow> \<not> isPending (sessions cam ! s))
      | _ \<Rightarrow> True)"

fun inOrderRun :: "RingCamera \<Rightarrow> event list \<Rightarrow> bool" where
  "inOrderRun cam [] = True"
| "inOrderRun cam (ev # schedule) = (inOrder cam ev \<and> inOrderRun (step cam ev) schedule)"

text \<open>
  A schedule of four calls A, B, C and D. A starts session 0, whose first sample (capture
  100, arrival 10099) is fresh. B arrives after session 0 has resolved and before A has
  resumed, so it awaits session 0 as well. A resumes. C finds the slot empty and starts
  session 1. B resumes. D arrives.
\<close>

definition overlapPrefix :: "event list" where
  "overlapPrefix =
     [GetSnapshot False,
      RunSession 0 (\<lambda>k. sample 100 10099),
      GetSnapshot False,
      Resume 0 (Inr ''jpeg''),
      GetSnapshot False,
      Resume 1 (Inr ''jpeg'')]"

definition overlapSchedule :: "event list" where
  "overlapSchedule = overlapPrefix @ [GetSnapshot False]"

section \<open>Properties\<close>

subsection \<open>The freshness loop\<close>

lemma timestampsRequest_effects [simp]:
  "timestampsRequest (cam\<lparr>effects := es\<rparr>) = timestampsRequest cam"
  by (simp add: timestampsRequest_def)

lemma refreshLoop_stale:
  "\<forall>k. i \<le> k \<and> k < maxAttempts \<longrightarrow> (\<exists>r. responses k = Inr r \<and> snapshotTimestampGracePeriod \<le> timestampAge r)
   \<Longrightarrow> refreshLoop responses delay maxAttempts i cam =
       (Inl (refreshFailed maxAttempts),
        cam\<lparr>effects := effects cam @ staleRounds cam delay (maxAttempts - i)\<rparr>)"
proof (induction responses delay maxAttempts i cam rule: refreshLoop.induct)
  case (1 responses delay maxAttempts i cam)
  show ?case
  proof (cases "i < maxAttempts")
    case False
    then show ?thesis
      by (simp add: refreshLoop.simps [of _ _ _ i] staleRounds_def)
  next
    case True
    with "1.prems" obtain r where r: "responses i = Inr r"
      and stale: "snapshotTimestampGracePeriod \<le> timestampAge r"
      by (metis le_refl)
    let ?c = "case timestamps r of [] \<Rightarrow> 0 | t # _ \<Rightarrow> timestamp t"
    let ?cam' = "perform (Request (timestampsRequest cam)) cam"
    have u: "updateTimestamp (responses i) cam = (Inr (?c, responseTimestamp r), ?cam')"
      by (simp add: updateTimestamp_def r Let_def)
    have nf: "\<not> \<bar>responseTimestamp r - ?c\<bar> < snapshotTimestampGracePeriod"
      using stale by (simp add: timestampAge_def)
    have rest: "\<forall>k. Suc i \<le> k \<and> k < maxAttempts \<longrightarrow>
        (\<exists>r. responses k = Inr r \<and> snapshotTimestampGracePeriod \<le> timestampAge r)"
      using "1.prems" by auto
    have ih: "refreshLoop responses delay maxAttempts (Suc i) (perform (Delay delay) ?cam') =
       (Inl (refreshFailed maxAttempts),
        (perform (Delay delay) ?cam')\<lparr>effects := effects (perform (Delay delay) ?cam')
           @ staleRounds (perform (Delay delay) ?cam') delay (maxAttempts - Suc i)\<rparr>)"
      using "1.IH" [OF True u [symmetric] refl refl _ nf rest] by simp
    have n: "maxAttempts - i = Suc (maxAttempts - Suc i)"
      using True by simp
    have step: "refreshLoop responses delay maxAttempts i cam =
        refreshLoop responses delay maxAttempts (Suc i) (perform (Delay delay) ?cam')"
      using True by (simp add: refreshLoop.simps [of _ _ _ i] u nf Let_def)
    show ?thesis
      unfolding step ih by (simp add: n staleRounds_def perform_def)
  qed
qed

lemma refreshLoop_fresh:
  "i \<le> j \<Longrightarrow> j < maxAttempts \<Longrightarrow>
   \<forall>k. i \<le> k \<and> k < j \<longrightarrow> (\<exists>r. responses k = Inr r \<and> snapshotTimestampGracePeriod \<le> timestampAge r)
   \<Longrightarrow> responses j = Inr r \<Longrightarrow> timestampAge r < snapshotTimestampGracePeriod
   \<Longrightarrow> refreshLoop responses delay maxAttempts i cam =
       (Inr (),
        cam\<lparr>effects := effects cam @ staleRounds cam delay (j - i) @ [Request (timestampsRequest cam)]\<rparr>)"
proof (induction responses delay maxAttempts i cam rule: refreshLoop.induct)
  case (1 responses delay maxAttempts i cam)
  from "1.prems" have True: "i < maxAttempts" by simp
  let ?cam' = "perform (Request (timestampsRequest cam)) cam"
  show ?case
  proof (cases "i = j")
    case True
    let ?c = "case timestamps r of [] \<Rightarrow> 0 | t # _ \<Rightarrow> timestamp t"
    have u: "updateTimestamp (responses i) cam = (Inr (?c, responseTimestamp r), ?cam')"
      using "1.prems" True by (simp add: updateTimestamp_def Let_def)
    have f: "\<bar>responseTimestamp r - ?c\<bar> < snapshotTimestampGracePeriod"
      using "1.prems" by (simp add: timestampAge_def)
    have "refreshLoop responses delay maxAttempts i cam = (Inr (), ?cam')"
      using \<open>i < maxAttempts\<close>
      by (simp add: refreshLoop.simps [of _ _ _ i] u f Let_def)
    then show ?thesis
      using True by (simp add: staleRounds_def perform_def)
  next
    case False
    with "1.prems" have lt: "i < j" by simp
    with "1.prems" obtain q where q: "responses i = Inr q"
      and stale: "snapshotTimestampGracePeriod \<le> timestampAge q"
      by (metis le_refl)
    let ?c = "case timestamps q of [] \<Rightarrow> 0 | t # _ \<Rightarrow> timestamp t"
    have u: "updateTimestamp (responses i) cam = (Inr (?c, responseTimestamp q), ?cam')"
      by (simp add: updateTimestamp_def q Let_def)
    have nf: "\<not> \<bar>responseTimestamp q - ?c\<bar> < snapshotTimestampGracePeriod"
      using stale by (simp add: timestampAge_def)
    have rest: "\<forall>k. Suc i \<le> k \<and> k < j \<longrightarrow>
        (\<exists>r. responses k = Inr r \<and> snapshotTimestampGracePeriod \<le> timestampAge r)"
      using "1.prems" by auto
    have ih: "refreshLoop responses delay maxAttempts (Suc i) (perform (Delay delay) ?cam') =
       (Inr (),
        (perform (Delay delay) ?cam')\<lparr>effects := effects (perform (Delay delay) ?cam')
           @ staleRounds (perform (Delay delay) ?cam') delay (j - Suc i)
           @ [Request (timestampsRequest (perform (Delay delay) ?cam'))]\<rparr>)"
      using "1.IH" [OF True u [symmetric] refl refl _ nf _ "1.prems"(2) rest "1.prems"(4,5)] lt
      by simp
    have n: "j - i = Suc (j - Suc i)"
      using lt by simp
    have step: "refreshLoop responses delay maxAttempts i cam =
        refreshLoop responses delay maxAttempts (Suc i) (perform (Delay delay) ?cam')"
      using True by (simp add: refreshLoop.simps [of _ _ _ i] u nf Let_def)
    show ?thesis
      unfolding step ih by (simp add: n staleRounds_def perform_def)
  qed
qed


lemma maxSnapshotRefreshAttempts_exact:
  "snapshotRefreshDelay cam allowStale * maxSnapshotRefreshAttempts cam allowStale =
     maxSnapshotRefreshSeconds cam allowStale * 1000"
  by (simp add: maxSnapshotRefreshAttempts_def snapshotRefreshDelay_def
      maxSnapshotRefreshSeconds_def)

lemma attempts_after:
  "attempts (cam\<lparr>effects := effects cam @ staleRounds cam delay n @ es\<rparr>) =
     attempts cam + n + length (filter (\<lambda>e. e = Request (timestampsRequest cam)) es)"
  by (induction n) (simp_all add: attempts_def staleRounds_def)

lemma staleBefore_D:
  assumes "staleBefore responses n"
  shows "\<forall>k. i \<le> k \<and> k < n \<longrightarrow>
           (\<exists>r. responses k = Inr r \<and> snapshotTimestampGracePeriod \<le> timestampAge r)"
proof (intro allI impI)
  fix k
  assume "i \<le> k \<and> k < n"
  with assms
  have "case responses k of
          Inr r \<Rightarrow> snapshotTimestampGracePeriod \<le> timestampAge r
        | Inl e \<Rightarrow> False"
    by (simp add: staleBefore_def)
  then show "\<exists>r. responses k = Inr r \<and> snapshotTimestampGracePeriod \<le> timestampAge r"
    by (cases "responses k") auto
qed

lemma refreshSnapshot_fresh:
  assumes "staleBefore responses j" and "j < maxSnapshotRefreshAttempts cam allowStale"
    and "responses j = Inr r" and "timestampAge r < snapshotTimestampGracePeriod"
  shows "refreshSnapshot responses allowStale cam =
     (Inr (), cam\<lparr>effects := effects cam
        @ staleRounds cam (snapshotRefreshDelay cam allowStale) j
        @ [Request (timestampsRequest cam)]\<rparr>)"
  using refreshLoop_fresh [where i = 0 and j = j and responses = responses and r = r
      and maxAttempts = "maxSnapshotRefreshAttempts cam allowStale"
      and delay = "snapshotRefreshDelay cam allowStale" and cam = cam]
    staleBefore_D [OF assms(1), of 0] assms(2-4)
  by (simp add: refreshSnapshot_def)

lemma refreshSnapshot_exhausted:
  assumes "staleBefore responses (maxSnapshotRefreshAttempts cam allowStale)"
  shows "refreshSnapshot responses allowStale cam =
     (Inl (refreshFailed (maxSnapshotRefreshAttempts cam allowStale)),
      cam\<lparr>effects := effects cam
        @ staleRounds cam (snapshotRefreshDelay cam allowStale)
            (maxSnapshotRefreshAttempts cam allowStale)\<rparr>)"
  using refreshLoop_stale [where i = 0 and responses = responses
      and maxAttempts = "maxSnapshotRefreshAttempts cam allowStale"
      and delay = "snapshotRefreshDelay cam allowStale" and cam = cam]
    staleBefore_D [OF assms, of 0]
  by (simp add: refreshSnapshot_def)

lemma attempts_rounds:
  "attempts (cam\<lparr>effects := effects cam @ staleRounds cam delay n\<rparr>) = attempts cam + n"
  using attempts_after [of cam delay n "[]"] by simp

lemma showNat_60: "showNat 60 = ''60''"
  by code_simp

lemma showNat_300: "showNat 300 = ''300''"
  by code_simp

lemma showNat_10: "showNat 10 = ''10''"
  by code_simp

lemma digitValue_digitChar: "d < 10 \<Longrightarrow> digitValue (digitChar d) = d"
proof -
  assume "d < 10"
  then have "d \<in> {0, 1, 2, 3, 4, 5, 6, 7, 8, 9}" by auto
  then show ?thesis
    by (auto simp add: digitValue_def digitChar_def)
qed

lemma digitsValue_snoc: "digitsValue (ds @ [c]) = 10 * digitsValue ds + digitValue c"
  by (simp add: digitsValue_def)

lemma digitsValue_showNat: "digitsValue (showNat n) = n"
proof (induction n rule: showNat.induct)
  case (1 n)
  show ?case
  proof (cases "n < 10")
    case True
    then show ?thesis
      by (simp add: showNat.simps [of n] digitsValue_def digitValue_digitChar)
  next
    case False
    have "digitsValue (showNat n) = 10 * digitsValue (showNat (n div 10)) + digitValue (digitChar (n mod 10))"
      using False by (simp add: showNat.simps [of n] digitsValue_snoc)
    also have "\<dots> = 10 * (n div 10) + n mod 10"
      using "1.IH" [OF False] by (simp add: digitValue_digitChar)
    finally show ?thesis by simp
  qed
qed

lemma refreshFailed_message:
  "refreshFailed n = Error (''Snapshot failed to refresh after '' @ showNat n @ '' attempts'')"
  by (simp add: refreshFailed_def)


lemma maxSnapshotRefreshAttempts_example:
  "maxSnapshotRefreshAttempts (RingCamera_new exampleData) False = 60"
  by (simp add: maxSnapshotRefreshAttempts_def snapshotRefreshDelay_def
      maxSnapshotRefreshSeconds_def slowSnapshots_def RingCamera_new_def exampleData_def)

text \<open>
  Claim C1. Every iteration of the loop asks for one timestamp sample. When the answers
  before attempt \<open>j\<close> are stale (age at least 10000 ms) and the answer to attempt
  \<open>j\<close>, within the budget, has an age below 10000 ms, \<open>refreshSnapshot\<close> returns
  normally after exactly \<open>j + 1\<close> requests, with no delay after the last one. In
  particular a first sample with capture time 100 and arrival time 100 + 9999 ends the
  loop after one request. When all answers within the budget are stale, the loop makes as
  many requests as the budget says, each followed by the delay, and throws the error whose
  message is "Snapshot failed to refresh after", the budget in decimal digits, "attempts":
  60 for a camera without slow snapshot refresh, 300 for a slow camera when stale images are
  not allowed, 10 for a slow camera when they are.
\<close>

theorem refreshSnapshot_freshness_loop:
  "(staleBefore responses j \<and> j < maxSnapshotRefreshAttempts cam allowStale \<and>
    responses j = Inr r \<and> timestampAge r < snapshotTimestampGracePeriod
      \<longrightarrow> refreshSnapshot responses allowStale cam =
            (Inr (), cam\<lparr>effects := effects cam
               @ staleRounds cam (snapshotRefreshDelay cam allowStale) j
               @ [Request (timestampsRequest cam)]\<rparr>) \<and>
          attempts (snd (refreshSnapshot responses allowStale cam)) = attempts cam + j + 1) \<and>
   (responses 0 = sample 100 (100 + 9999)
      \<longrightarrow> refreshSnapshot responses allowStale cam =
            (Inr (), perform (Request (timestampsRequest cam)) cam) \<and>
          attempts (snd (refreshSnapshot responses allowStale cam)) = attempts cam + 1) \<and>
   (staleBefore responses (maxSnapshotRefreshAttempts cam allowStale)
      \<longrightarrow> refreshSnapshot responses allowStale cam =
            (Inl (Error (''Snapshot failed to refresh after ''
                         @ showNat (maxSnapshotRefreshAttempts cam allowStale) @ '' attempts'')),
             cam\<lparr>effects := effects cam
               @ staleRounds cam (snapshotRefreshDelay cam allowStale)
                   (maxSnapshotRefreshAttempts cam allowStale)\<rparr>) \<and>
          attempts (snd (refreshSnapshot responses allowStale cam)) =
            attempts cam + maxSnapshotRefreshAttempts cam allowStale) \<and>
   (staleBefore responses 60 \<and> \<not> hasSlowSnapshotRefresh cam
      \<longrightarrow> fst (refreshSnapshot responses allowStale cam) =
            Inl (Error ''Snapshot failed to refresh after 60 attempts'') \<and>
          attempts (snd (refreshSnapshot responses allowStale cam)) = attempts cam + 60) \<and>
   (staleBefore responses 300 \<and> hasSlowSnapshotRefresh cam \<and> \<not> allowStale
      \<longrightarrow> fst (refreshSnapshot responses allowStale cam) =
            Inl (Error ''Snapshot failed to refresh after 300 attempts'') \<and>
          attempts (snd (refreshSnapshot responses allowStale cam)) = attempts cam + 300) \<and>
   (staleBefore responses 10 \<and> hasSlowSnapshotRefresh cam \<and> allowStale
      \<longrightarrow> fst (refreshSnapshot responses allowStale cam) =
            Inl (Error ''Snapshot failed to refresh after 10 attempts'') \<and>
          attempts (snd (refreshSnapshot responses allowStale cam)) = attempts cam + 10) \<and>
   digitsValue (showNat n) = n"
proof -
  let ?m = "maxSnapshotRefreshAttempts cam allowStale"
  let ?d = "snapshotRefreshDelay cam allowStale"
  have c1: "staleBefore responses j \<and> j < ?m \<and>
    responses j = Inr r \<and> timestampAge r < snapshotTimestampGracePeriod
      \<longrightarrow> refreshSnapshot responses allowStale cam =
            (Inr (), cam\<lparr>effects := effects cam @ staleRounds cam ?d j
               @ [Request (timestampsRequest cam)]\<rparr>) \<and>
          attempts (snd (refreshSnapshot responses allowStale cam)) = attempts cam + j + 1"
  proof (intro impI, elim conjE)
    assume a: "staleBefore responses j" "j < ?m"
      "responses j = Inr r" "timestampAge r < snapshotTimestampGracePeriod"
    note eq = refreshSnapshot_fresh [OF a]
    show "refreshSnapshot responses allowStale cam =
            (Inr (), cam\<lparr>effects := effects cam @ staleRounds cam ?d j
               @ [Request (timestampsRequest cam)]\<rparr>) \<and>
          attempts (snd (refreshSnapshot responses allowStale cam)) = attempts cam + j + 1"
      by (simp add: eq attempts_after)
  qed
  have c2: "responses 0 = sample 100 (100 + 9999)
      \<longrightarrow> refreshSnapshot responses allowStale cam =
            (Inr (), perform (Request (timestampsRequest cam)) cam) \<and>
          attempts (snd (refreshSnapshot responses allowStale cam)) = attempts cam + 1"
  proof
    assume first: "responses 0 = sample 100 (100 + 9999)"
    have m: "0 < ?m"
      by (simp add: maxSnapshotRefreshAttempts_def snapshotRefreshDelay_def
          maxSnapshotRefreshSeconds_def)
    have eq: "refreshSnapshot responses allowStale cam =
        (Inr (), perform (Request (timestampsRequest cam)) cam)"
      using refreshSnapshot_fresh [of responses 0 cam allowStale
          "\<lparr> timestamps = [\<lparr>timestamp = 100\<rparr>], responseTimestamp = 100 + 9999 \<rparr>"] m first
      by (simp add: staleBefore_def sample_def timestampAge_def snapshotTimestampGracePeriod_def
          staleRounds_def perform_def)
    show "refreshSnapshot responses allowStale cam =
        (Inr (), perform (Request (timestampsRequest cam)) cam) \<and>
      attempts (snd (refreshSnapshot responses allowStale cam)) = attempts cam + 1"
      by (simp add: eq perform_def attempts_def)
  qed
  have c3: "staleBefore responses ?m
      \<longrightarrow> refreshSnapshot responses allowStale cam =
            (Inl (Error (''Snapshot failed to refresh after '' @ showNat ?m @ '' attempts'')),
             cam\<lparr>effects := effects cam @ staleRounds cam ?d ?m\<rparr>) \<and>
          attempts (snd (refreshSnapshot responses allowStale cam)) = attempts cam + ?m"
  proof
    assume a: "staleBefore responses ?m"
    note eq = refreshSnapshot_exhausted [OF a]
    show "refreshSnapshot responses allowStale cam =
            (Inl (Error (''Snapshot failed to refresh after '' @ showNat ?m @ '' attempts'')),
             cam\<lparr>effects := effects cam @ staleRounds cam ?d ?m\<rparr>) \<and>
          attempts (snd (refreshSnapshot responses allowStale cam)) = attempts cam + ?m"
      by (simp add: eq attempts_rounds refreshFailed_message)
  qed
  have budget: "fst (refreshSnapshot responses allowStale cam) =
        Inl (Error (''Snapshot failed to refresh after '' @ showNat b @ '' attempts'')) \<and>
      attempts (snd (refreshSnapshot responses allowStale cam)) = attempts cam + b"
    if a: "staleBefore responses b" and m: "?m = b" for b
  proof -
    from a m have "staleBefore responses ?m" by simp
    note eq = refreshSnapshot_exhausted [OF this]
    have "fst (refreshSnapshot responses allowStale cam) =
        Inl (Error (''Snapshot failed to refresh after '' @ showNat ?m @ '' attempts''))"
      by (simp add: eq refreshFailed_message)
    moreover have "attempts (snd (refreshSnapshot responses allowStale cam)) = attempts cam + ?m"
      by (simp add: eq attempts_rounds)
    ultimately show ?thesis
      by (simp only: m)
  qed
  have c4: "staleBefore responses 60 \<and> \<not> hasSlowSnapshotRefresh cam
      \<longrightarrow> fst (refreshSnapshot responses allowStale cam) =
            Inl (Error ''Snapshot failed to refresh after 60 attempts'') \<and>
          attempts (snd (refreshSnapshot responses allowStale cam)) = attempts cam + 60"
  proof (intro impI, elim conjE)
    assume a: "staleBefore responses 60" and ns: "\<not> hasSlowSnapshotRefresh cam"
    have m: "?m = 60"
      using ns by (simp add: maxSnapshotRefreshAttempts_def snapshotRefreshDelay_def
          maxSnapshotRefreshSeconds_def slowSnapshots_def)
    show "fst (refreshSnapshot responses allowStale cam) =
            Inl (Error ''Snapshot failed to refresh after 60 attempts'') \<and>
          attempts (snd (refreshSnapshot responses allowStale cam)) = attempts cam + 60"
      using budget [OF a m] by (simp add: showNat_60)
  qed
  have c5: "staleBefore responses 300 \<and> hasSlowSnapshotRefresh cam \<and> \<not> allowStale
      \<longrightarrow> fst (refreshSnapshot responses allowStale cam) =
            Inl (Error ''Snapshot failed to refresh after 300 attempts'') \<and>
          attempts (snd (refreshSnapshot responses allowStale cam)) = attempts cam + 300"
  proof (intro impI, elim conjE)
    assume a: "staleBefore responses 300" and s: "hasSlowSnapshotRefresh cam" "\<not> allowStale"
    have m: "?m = 300"
      using s by (simp add: maxSnapshotRefreshAttempts_def snapshotRefreshDelay_def
          maxSnapshotRefreshSeconds_def slowSnapshots_def)
    show "fst (refreshSnapshot responses allowStale cam) =
            Inl (Error ''Snapshot failed to refresh after 300 attempts'') \<and>
          attempts (snd (refreshSnapshot responses allowStale cam)) = attempts cam + 300"
      using budget [OF a m] by (simp add: showNat_300)
  qed
  have c6: "staleBefore responses 10 \<and> hasSlowSnapshotRefresh cam \<and> allowStale
      \<longrightarrow> fst (refreshSnapshot responses allowStale cam) =
            Inl (Error ''Snapshot failed to refresh after 10 attempts'') \<and>
          attempts (snd (refreshSnapshot responses allowStale cam)) = attempts cam + 10"
  proof (intro impI, elim conjE)
    assume a: "staleBefore responses 10" and s: "hasSlowSnapshotRefresh cam" "allowStale"
    have m: "?m = 10"
      using s by (simp add: maxSnapshotRefreshAttempts_def snapshotRefreshDelay_def
          maxSnapshotRefreshSeconds_def slowSnapshots_def)
    show "fst (refreshSnapshot responses allowStale cam) =
            Inl (Error ''Snapshot failed to refresh after 10 attempts'') \<and>
          attempts (snd (refreshSnapshot responses allowStale cam)) = attempts cam + 10"
      using budget [OF a m] by (simp add: showNat_10)
  qed
  from c1 c2 c3 c4 c5 c6 digitsValue_showNat [of n] show ?thesis
    by (intro conjI)
qed

theorem refreshSnapshot_freshness_loop_witness:
  "staleBefore (\<lambda>k. if k < 2 then sample 100 20000 else sample 100 (100 + 9999)) 2 \<and>
   2 < maxSnapshotRefreshAttempts (RingCamera_new exampleData) False \<and>
   timestampAge \<lparr>timestamps = [\<lparr>timestamp = 100\<rparr>], responseTimestamp = 100 + 9999\<rparr>
     < snapshotTimestampGracePeriod \<and>
   fst (refreshSnapshot (\<lambda>k. if k < 2 then sample 100 20000 else sample 100 (100 + 9999))
          False (RingCamera_new exampleData)) = Inr () \<and>
   attempts (snd (refreshSnapshot (\<lambda>k. if k < 2 then sample 100 20000 else sample 100 (100 + 9999))
          False (RingCamera_new exampleData))) = 3 \<and>
   refreshSnapshot (\<lambda>k. sample 100 (100 + 9999)) False (RingCamera_new exampleData) =
     (Inr (), perform (Request (timestampsRequest (RingCamera_new exampleData)))
        (RingCamera_new exampleData)) \<and>
   staleBefore (\<lambda>k. sample 100 10100) 60 \<and>
   \<not> hasSlowSnapshotRefresh (RingCamera_new exampleData) \<and>
   fst (refreshSnapshot (\<lambda>k. sample 100 10100) False (RingCamera_new exampleData)) =
     Inl (Error ''Snapshot failed to refresh after 60 attempts'') \<and>
   attempts (snd (refreshSnapshot (\<lambda>k. sample 100 10100) False (RingCamera_new exampleData))) = 60 \<and>
   staleBefore (\<lambda>k. sample 100 10100) 300 \<and>
   hasSlowSnapshotRefresh (RingCamera_new slowData) \<and>
   fst (refreshSnapshot (\<lambda>k. sample 100 10100) False (RingCamera_new slowData)) =
     Inl (Error ''Snapshot failed to refresh after 300 attempts'') \<and>
   attempts (snd (refreshSnapshot (\<lambda>k. sample 100 10100) False (RingCamera_new slowData))) = 300 \<and>
   staleBefore (\<lambda>k. sample 100 10100) 10 \<and>
   fst (refreshSnapshot (\<lambda>k. sample 100 10100) True (RingCamera_new slowData)) =
     Inl (Error ''Snapshot failed to refresh after 10 attempts'') \<and>
   attempts (snd (refreshSnapshot (\<lambda>k. sample 100 10100) True (RingCamera_new slowData))) = 10"
proof -
  let ?cam = "RingCamera_new exampleData"
  let ?slow = "RingCamera_new slowData"
  let ?late = "\<lambda>k::nat. if k < 2 then sample 100 20000 else sample 100 (100 + 9999)"
  let ?stale = "\<lambda>k::nat. sample 100 10100"
  let ?r = "\<lparr>timestamps = [\<lparr>timestamp = 100\<rparr>], responseTimestamp = 100 + 9999\<rparr>"
  have a0: "attempts ?cam = 0" "attempts ?slow = 0"
    by (simp_all add: attempts_def RingCamera_new_def)
  have s1: "staleBefore ?late 2"
    by (simp add: staleBefore_def sample_def timestampAge_def snapshotTimestampGracePeriod_def)
  have m1: "2 < maxSnapshotRefreshAttempts ?cam False"
    by (simp add: maxSnapshotRefreshAttempts_example)
  have r1: "?late 2 = Inr ?r"
    by (simp add: sample_def)
  have f1: "timestampAge ?r < snapshotTimestampGracePeriod"
    by (simp add: timestampAge_def snapshotTimestampGracePeriod_def)
  have s3: "staleBefore ?stale b" for b
    by (simp add: staleBefore_def sample_def timestampAge_def snapshotTimestampGracePeriod_def)
  have n3: "\<not> hasSlowSnapshotRefresh ?cam"
    by (simp add: RingCamera_new_def exampleData_def)
  have n4: "hasSlowSnapshotRefresh ?slow"
    by (simp add: RingCamera_new_def slowData_def exampleData_def)
  have first: "(\<lambda>k::nat. sample 100 (100 + 9999)) 0 = sample 100 (100 + 9999)"
    by simp
  have nf: "\<not> False" by simp
  note t1 = refreshSnapshot_freshness_loop [of ?late 2 ?cam False ?r 0, THEN conjunct1, rule_format,
      OF conjI [OF s1 conjI [OF m1 conjI [OF r1 f1]]]]
  note t2 = refreshSnapshot_freshness_loop [of "\<lambda>k. sample 100 (100 + 9999)" 0 ?cam False ?r 0,
      THEN conjunct2, THEN conjunct1, rule_format, OF first]
  note t4 = refreshSnapshot_freshness_loop [of ?stale 0 ?cam False ?r 0,
      THEN conjunct2, THEN conjunct2, THEN conjunct2, THEN conjunct1, rule_format,
      OF conjI [OF s3 n3]]
  note t5 = refreshSnapshot_freshness_loop [of ?stale 0 ?slow False ?r 0,
      THEN conjunct2, THEN conjunct2, THEN conjunct2, THEN conjunct2, THEN conjunct1,
      rule_format, OF conjI [OF s3 conjI [OF n4 nf]]]
  note t6 = refreshSnapshot_freshness_loop [of ?stale 0 ?slow True ?r 0,
      THEN conjunct2, THEN conjunct2, THEN conjunct2, THEN conjunct2, THEN conjunct2,
      THEN conjunct1, rule_format, OF conjI [OF s3 conjI [OF n4 TrueI]]]
  have c1a: "fst (refreshSnapshot ?late False ?cam) = Inr ()"
    using t1 [THEN conjunct1] by simp
  have c1b: "attempts (snd (refreshSnapshot ?late False ?cam)) = 3"
    using t1 [THEN conjunct2] a0 by simp
  have c2: "refreshSnapshot (\<lambda>k. sample 100 (100 + 9999)) False ?cam =
      (Inr (), perform (Request (timestampsRequest ?cam)) ?cam)"
    using t2 by simp
  have c4a: "fst (refreshSnapshot ?stale False ?cam) =
       Inl (Error ''Snapshot failed to refresh after 60 attempts'')"
    using t4 [THEN conjunct1] by simp
  have c4b: "attempts (snd (refreshSnapshot ?stale False ?cam)) = 60"
    using t4 [THEN conjunct2] a0 by simp
  have c5a: "fst (refreshSnapshot ?stale False ?slow) =
       Inl (Error ''Snapshot failed to refresh after 300 attempts'')"
    using t5 [THEN conjunct1] by simp
  have c5b: "attempts (snd (refreshSnapshot ?stale False ?slow)) = 300"
    using t5 [THEN conjunct2] a0 by simp
  have c6a: "fst (refreshSnapshot ?stale True ?slow) =
       Inl (Error ''Snapshot failed to refresh after 10 attempts'')"
    using t6 [THEN conjunct1] by simp
  have c6b: "attempts (snd (refreshSnapshot ?stale True ?slow)) = 10"
    using t6 [THEN conjunct2] a0 by simp
  from s1 m1 f1 c1a c1b c2 s3 [of 60] n3 c4a c4b s3 [of 300] n4 c5a c5b s3 [of 10] c6a c6b
  show ?thesis
    by (intro conjI)
qed

text \<open>
  Claim C2. The delay between attempts and the number of attempts depend on the camera's
  \<open>hasSlowSnapshotRefresh\<close> flag (set for the device type \<open>doorbell_v3\<close>) and on
  \<open>allowStale\<close> only: 2000 ms and 300 attempts (600 seconds) for a slow camera when
  stale images are not allowed, 500 ms and 10 attempts (5 seconds) for a slow camera when
  they are, 500 ms and 60 attempts (30 seconds) for every other camera. The division that
  gives the number of attempts is exact.
\<close>

theorem refreshSnapshot_parameters:
  "snapshotRefreshDelay cam allowStale =
     (if hasSlowSnapshotRefresh cam \<and> \<not> allowStale then 2000 else 500) \<and>
   maxSnapshotRefreshSeconds cam allowStale =
     (if hasSlowSnapshotRefresh cam \<and> \<not> allowStale then 600
      else if hasSlowSnapshotRefresh cam then 5 else 30) \<and>
   maxSnapshotRefreshAttempts cam allowStale =
     (if hasSlowSnapshotRefresh cam \<and> \<not> allowStale then 300
      else if hasSlowSnapshotRefresh cam then 10 else 60) \<and>
   snapshotRefreshDelay cam allowStale * maxSnapshotRefreshAttempts cam allowStale =
     maxSnapshotRefreshSeconds cam allowStale * 1000 \<and>
   hasSlowSnapshotRefresh (RingCamera_new initialData) =
     (device_kind initialData = ''doorbell_v3'')"
  by (simp add: maxSnapshotRefreshAttempts_def snapshotRefreshDelay_def
      maxSnapshotRefreshSeconds_def slowSnapshots_def RingCamera_new_def)

subsection \<open>The battery level\<close>

lemma parseFloat_55: "parseFloat ''55'' = Num 55"
  by (simp add: parseFloat_def splitSign_def isWhiteSpace_def isDigit_def splitFraction_def
      digitsValue_def digitValue_def exponentFactor_def)

lemma parseFloat_abc: "parseFloat ''abc'' = NaN"
  by (simp add: parseFloat_def splitSign_def isWhiteSpace_def isDigit_def splitFraction_def)

lemma parseFloat_undefined: "parseFloat ''undefined'' = NaN"
  by (simp add: parseFloat_def splitSign_def isWhiteSpace_def isDigit_def splitFraction_def)


lemma parseFloat_NaN_iff: "parseFloat s = NaN \<longleftrightarrow> \<not> numericText s"
proof -
  obtain negative u where su: "splitSign (dropWhile isWhiteSpace s) = (negative, u)"
    by (cases "splitSign (dropWhile isWhiteSpace s)")
  show ?thesis
  proof (cases "take 8 u = ''Infinity''")
    case True
    then show ?thesis
      by (simp add: parseFloat_def numericText_def su)
  next
    case False
    show ?thesis
    proof (cases u)
      case Nil
      then show ?thesis
        using False by (simp add: parseFloat_def numericText_def su splitFraction_def)
    next
      case (Cons c r)
      show ?thesis
      proof (cases "isDigit c")
        case True
        then show ?thesis
          using False Cons
          by (simp add: parseFloat_def numericText_def su Let_def split: prod.splits)
      next
        case nd: False
        show ?thesis
        proof (cases "c = CHR ''.''")
          case True
          then show ?thesis
            using False Cons nd
            by (cases r) (simp_all add: parseFloat_def numericText_def su splitFraction_def Let_def)
        next
          case nodot: False
          then show ?thesis
            using False Cons nd
            by (simp add: parseFloat_def numericText_def su splitFraction_def Let_def)
        qed
      qed
    qed
  qed
qed

lemma getBatteryLevel_None_iff:
  "getBatteryLevel d = None \<longleftrightarrow>
     (case battery_life d of
        BatteryNumber n \<Rightarrow> n = NaN
      | BatteryString s \<Rightarrow> \<not> numericText s
      | BatteryUndefined \<Rightarrow> True)"
  by (simp add: getBatteryLevel_def isNaN_def parseFloat_NaN_iff parseFloat_undefined
      split: battery_field.splits)

text \<open>
  Claim C7. \<open>getBatteryLevel\<close> gives 55 for the number 55 and for the text "55", and
  nothing (\<open>null\<close>) for the text "abc" and for an undefined field. In general it gives
  nothing exactly when the field holds neither a number nor a numeric text, where a text
  is numeric when \<open>parseFloat\<close> reads a number from it, and where the number value
  \<open>NaN\<close>, which the \<open>isNaN\<close> test of the source turns into \<open>null\<close> like an
  unreadable text, does not count as a number.
\<close>

theorem getBatteryLevel_cases:
  "getBatteryLevel (d\<lparr>battery_life := BatteryNumber (Num 55)\<rparr>) = Some (Num 55) \<and>
   getBatteryLevel (d\<lparr>battery_life := BatteryString ''55''\<rparr>) = Some (Num 55) \<and>
   getBatteryLevel (d\<lparr>battery_life := BatteryString ''abc''\<rparr>) = None \<and>
   getBatteryLevel (d\<lparr>battery_life := BatteryUndefined\<rparr>) = None \<and>
   (getBatteryLevel d = None) =
     (\<not> holdsNumber (battery_life d) \<and> \<not> holdsNumericText (battery_life d)) \<and>
   holdsNumericText (BatteryString s) = (parseFloat s \<noteq> NaN) \<and>
   \<not> holdsNumericText (BatteryString ''abc'') \<and> holdsNumericText (BatteryString ''55'') \<and>
   holdsNumber (BatteryNumber (Num 55)) \<and> \<not> holdsNumber (BatteryNumber NaN)"
proof -
  have n1: "\<not> numericText ''abc''"
    using parseFloat_NaN_iff [of "''abc''"] by (simp add: parseFloat_abc)
  have n2: "numericText ''55''"
    using parseFloat_NaN_iff [of "''55''"] by (simp add: parseFloat_55)
  have g: "(getBatteryLevel d = None) =
      (\<not> holdsNumber (battery_life d) \<and> \<not> holdsNumericText (battery_life d))"
    by (simp add: getBatteryLevel_None_iff holdsNumber_def holdsNumericText_def
        split: battery_field.splits)
  have p: "holdsNumericText (BatteryString s) = (parseFloat s \<noteq> NaN)"
    by (simp add: holdsNumericText_def parseFloat_NaN_iff)
  have v: "getBatteryLevel (d\<lparr>battery_life := BatteryNumber (Num 55)\<rparr>) = Some (Num 55)"
    "getBatteryLevel (d\<lparr>battery_life := BatteryString ''55''\<rparr>) = Some (Num 55)"
    "getBatteryLevel (d\<lparr>battery_life := BatteryString ''abc''\<rparr>) = None"
    "getBatteryLevel (d\<lparr>battery_life := BatteryUndefined\<rparr>) = None"
    by (simp_all add: getBatteryLevel_def isNaN_def parseFloat_55 parseFloat_abc
        parseFloat_undefined)
  have h: "\<not> holdsNumericText (BatteryString ''abc'')" "holdsNumericText (BatteryString ''55'')"
    "holdsNumber (BatteryNumber (Num 55))" "\<not> holdsNumber (BatteryNumber NaN)"
    using n1 n2 by (simp_all add: holdsNumber_def holdsNumericText_def)
  from v g p h show ?thesis by blast
qed

subsection \<open>\<open>distinctUntilChanged\<close> and the battery channel\<close>

lemma distinctUntilChanged_from_snoc:
  "distinctUntilChanged_from prev (xs @ [x]) =
     distinctUntilChanged_from prev xs @
       (if (if xs = [] then prev else Some (last xs)) = Some x then [] else [x])"
  by (induction xs arbitrary: prev) auto

lemma distinctUntilChanged_snoc:
  "xs \<noteq> [] \<Longrightarrow> distinctUntilChanged (xs @ [x]) =
     distinctUntilChanged xs @ (if last xs = x then [] else [x])"
  by (simp add: distinctUntilChanged_def distinctUntilChanged_from_snoc)

lemma distinctUntilChanged_from_remdups_adj:
  "distinctUntilChanged_from prev xs =
     (case prev of None \<Rightarrow> remdups_adj xs | Some p \<Rightarrow> tl (remdups_adj (p # xs)))"
proof (induction xs arbitrary: prev)
  case Nil
  then show ?case by (simp split: option.splits)
next
  case (Cons x xs)
  show ?case
  proof (cases prev)
    case None
    then show ?thesis
      using Cons.IH [of "Some x"] by (simp add: remdups_adj_Cons' ) 
  next
    case (Some p)
    then show ?thesis
      using Cons.IH [of "Some x"] Cons.IH [of "Some p"] by (auto)
  qed
qed

lemma distinctUntilChanged_remdups_adj: "distinctUntilChanged xs = remdups_adj xs"
  by (simp add: distinctUntilChanged_def distinctUntilChanged_from_remdups_adj)

lemma last_distinctUntilChanged: "xs \<noteq> [] \<Longrightarrow> last (distinctUntilChanged xs) = last xs"
  by (simp add: distinctUntilChanged_remdups_adj)

lemma distinct_adj_distinctUntilChanged: "distinct_adj (distinctUntilChanged xs)"
  by (simp add: distinctUntilChanged_remdups_adj)


lemma onData_updateAll: "onData (updateAll us cam) = onData cam @ us"
  by (induction us arbitrary: cam) (simp_all add: updateAll_def updateData_def)

lemma onBatteryLevel_updateData:
  "onData cam \<noteq> [] \<Longrightarrow> onBatteryLevel (updateData u cam) =
     onBatteryLevel cam @ (if getBatteryLevel u = batteryLevel cam then [] else [getBatteryLevel u])"
  by (auto simp add: onBatteryLevel_def updateData_def distinctUntilChanged_snoc batteryLevel_def
      data_def last_map)

text \<open>
  Claim C8. After any sequence of \<open>updateData\<close> calls on a new camera, the emissions of
  \<open>onBatteryLevel\<close> are the derived battery levels of the records pushed so far with
  every run of equal consecutive values emitted once: no two neighbours are equal, and one
  more update emits its derived value exactly when that value differs from the derived
  value of the current record. An update with the text "55" right after an update with the
  number 55 emits nothing.
\<close>

theorem onBatteryLevel_distinct:
  "onBatteryLevel (updateAll us (RingCamera_new initialData)) =
     remdups_adj (map getBatteryLevel (initialData # us)) \<and>
   distinct_adj (onBatteryLevel (updateAll us (RingCamera_new initialData))) \<and>
   onBatteryLevel (updateData u (updateAll us (RingCamera_new initialData))) =
     onBatteryLevel (updateAll us (RingCamera_new initialData)) @
       (if getBatteryLevel u = batteryLevel (updateAll us (RingCamera_new initialData)) then []
        else [getBatteryLevel u]) \<and>
   onBatteryLevel
     (updateData (d'\<lparr>battery_life := BatteryString ''55''\<rparr>)
       (updateData (d\<lparr>battery_life := BatteryNumber (Num 55)\<rparr>)
         (updateAll us (RingCamera_new initialData)))) =
   onBatteryLevel
     (updateData (d\<lparr>battery_life := BatteryNumber (Num 55)\<rparr>)
       (updateAll us (RingCamera_new initialData)))"
proof -
  let ?cam = "updateAll us (RingCamera_new initialData)"
  have od: "onData ?cam = initialData # us"
    by (simp add: onData_updateAll RingCamera_new_def)
  have ne: "onData ?cam \<noteq> []" and ne': "onData (updateData u' ?cam) \<noteq> []" for u'
    by (simp_all add: od updateData_def)
  have c1: "onBatteryLevel ?cam = remdups_adj (map getBatteryLevel (initialData # us))"
    by (simp add: onBatteryLevel_def od distinctUntilChanged_remdups_adj)
  have c2: "distinct_adj (onBatteryLevel ?cam)"
    by (simp add: onBatteryLevel_def distinct_adj_distinctUntilChanged)
  have c3: "onBatteryLevel (updateData u ?cam) =
     onBatteryLevel ?cam @ (if getBatteryLevel u = batteryLevel ?cam then [] else [getBatteryLevel u])"
    by (rule onBatteryLevel_updateData [OF ne])
  have b: "batteryLevel (updateData (d\<lparr>battery_life := BatteryNumber (Num 55)\<rparr>) ?cam) = Some (Num 55)"
    by (simp add: batteryLevel_def data_def updateData_def getBatteryLevel_def isNaN_def)
  have g: "getBatteryLevel (d'\<lparr>battery_life := BatteryString ''55''\<rparr>) = Some (Num 55)"
    by (simp add: getBatteryLevel_def isNaN_def parseFloat_55)
  have c4: "onBatteryLevel
     (updateData (d'\<lparr>battery_life := BatteryString ''55''\<rparr>)
       (updateData (d\<lparr>battery_life := BatteryNumber (Num 55)\<rparr>) ?cam)) =
     onBatteryLevel (updateData (d\<lparr>battery_life := BatteryNumber (Num 55)\<rparr>) ?cam)"
    by (simp add: onBatteryLevel_updateData [OF ne'] b g)
  from c1 c2 c3 c4 show ?thesis by blast
qed


subsection \<open>The motion channel\<close>

lemma someMotion_iff:
  "someMotion store dings =
     (\<exists>ding \<in> set dings. kind (store ding) = ''motion'' \<or> motion (store ding))"
  by (auto simp add: someMotion_def list_ex_iff)

lemma onMotionDetected_next_frame [simp]:
  "onActiveDings (onMotionDetected_next store dings cam) = onActiveDings cam"
  "onNewDing (onMotionDetected_next store dings cam) = onNewDing cam"
  "timers (onMotionDetected_next store dings cam) = timers cam"
  "clock (onMotionDetected_next store dings cam) = clock cam"
  "motion_refCount (onMotionDetected_next store dings cam) = motion_refCount cam"
  by (simp_all add: onMotionDetected_next_def Let_def)

lemma onActiveDings_next_frame [simp]:
  "onActiveDings (onActiveDings_next store dings cam) = onActiveDings cam @ [dings]"
  "onNewDing (onActiveDings_next store dings cam) = onNewDing cam"
  "timers (onActiveDings_next store dings cam) = timers cam"
  "clock (onActiveDings_next store dings cam) = clock cam"
  "motion_refCount (onActiveDings_next store dings cam) = motion_refCount cam"
  by (simp_all add: onActiveDings_next_def Let_def)

lemma activeDings_onActiveDings_next [simp]:
  "activeDings (onActiveDings_next store dings cam) = dings"
  by (simp add: activeDings_def)

lemma onActiveDings_next_disconnected:
  "motion_refCount cam = 0 \<Longrightarrow>
     onActiveDings_next store dings cam = cam\<lparr>onActiveDings := onActiveDings cam @ [dings]\<rparr>"
  by (simp add: onActiveDings_next_def)

lemma onActiveDings_next_connected:
  "0 < motion_refCount cam \<Longrightarrow>
     motion_key (onActiveDings_next store dings cam) = Some (someMotion store dings) \<and>
     motion_emitted (onActiveDings_next store dings cam) =
       motion_emitted cam @
         (if motion_key cam = Some (someMotion store dings) then [] else [someMotion store dings])"
  by (simp add: onActiveDings_next_def onMotionDetected_next_def Let_def)

lemma motionCoherent_new: "motionCoherent store (RingCamera_new initialData)"
  by (simp add: motionCoherent_def RingCamera_new_def)

lemma motionCoherent_next:
  assumes "motionCoherent store cam"
  shows "motionCoherent store (onActiveDings_next store dings cam)"
proof (cases "0 < motion_refCount cam")
  case False
  with assms show ?thesis
    by (simp add: motionCoherent_def onActiveDings_next_def)
next
  case True
  with assms have k: "motion_key cam = Some (someMotion store (activeDings cam))"
    and b: "motion_buffer cam = Some (someMotion store (activeDings cam))"
    and e: "motion_buffer cam =
        (if motion_emitted cam = [] then None else Some (last (motion_emitted cam)))"
    unfolding motionCoherent_def by blast+
  show ?thesis
  proof (cases "someMotion store dings = someMotion store (activeDings cam)")
    case same: True
    have "onActiveDings_next store dings cam = cam\<lparr>onActiveDings := onActiveDings cam @ [dings]\<rparr>"
      using True same k by (simp add: onActiveDings_next_def onMotionDetected_next_def Let_def)
    then show ?thesis
      using True same k b e by (auto simp add: motionCoherent_def activeDings_def split: if_splits)
  next
    case differs: False
    have "onActiveDings_next store dings cam =
        cam\<lparr>onActiveDings := onActiveDings cam @ [dings],
            motion_key := Some (someMotion store dings),
            motion_buffer := Some (someMotion store dings),
            motion_emitted := motion_emitted cam @ [someMotion store dings]\<rparr>"
      using True differs k by (simp add: onActiveDings_next_def onMotionDetected_next_def Let_def)
    then show ?thesis
      by (simp add: motionCoherent_def activeDings_def)
  qed
qed

lemma onMotionDetected_subscribe_connected:
  "0 < motion_refCount cam \<Longrightarrow>
     onMotionDetected_subscribe store cam =
       (case motion_buffer cam of None \<Rightarrow> [] | Some buffered \<Rightarrow> [buffered],
        cam\<lparr>motion_refCount := motion_refCount cam + 1\<rparr>)"
  by (simp add: onMotionDetected_subscribe_def)

lemma onMotionDetected_subscribe_disconnected:
  "motion_refCount cam = 0 \<Longrightarrow>
     onMotionDetected_subscribe store cam =
       ((case motion_buffer cam of None \<Rightarrow> [] | Some buffered \<Rightarrow> [buffered])
          @ [someMotion store (activeDings cam)],
        cam\<lparr>motion_refCount := 1,
            motion_key := Some (someMotion store (activeDings cam)),
            motion_buffer := Some (someMotion store (activeDings cam)),
            motion_emitted := motion_emitted cam @ [someMotion store (activeDings cam)]\<rparr>)"
  by (simp add: onMotionDetected_subscribe_def onMotionDetected_next_def activeDings_def Let_def)

lemma motionCoherent_subscribe:
  assumes "motionCoherent store cam"
  shows "motionCoherent store (snd (onMotionDetected_subscribe store cam))"
proof (cases "0 < motion_refCount cam")
  case True
  with assms show ?thesis
    by (auto simp add: onMotionDetected_subscribe_connected motionCoherent_def activeDings_def
        split: if_splits)
next
  case False
  then have z: "motion_refCount cam = 0" by simp
  show ?thesis
    by (simp add: onMotionDetected_subscribe_disconnected [OF z] motionCoherent_def activeDings_def)
qed

lemma motionCoherent_unsubscribe:
  assumes "motionCoherent store cam"
  shows "motionCoherent store (onMotionDetected_unsubscribe cam)"
proof -
  have "0 < motion_refCount cam" if "0 < motion_refCount cam - 1"
    using that by simp
  with assms show ?thesis
    unfolding motionCoherent_def onMotionDetected_unsubscribe_def activeDings_def
    by (auto split: if_splits)
qed


text \<open>
  Claim C6. The value the motion channel computes from an active set is true exactly when
  some ding of the set has kind \<open>motion\<close> or has its motion flag set; a ding of kind
  \<open>motion\<close> whose flag is not set is enough. While the channel has a subscriber, a new
  active set emits its value only when that differs from the value emitted last, the value
  emitted last is the value of the current active set, and a further subscriber receives
  exactly that one value at once. While the channel has no subscriber, a new active set
  computes nothing; the next subscriber then receives first the value kept in the replay
  buffer, if there is one, and after it the value of the current active set, whether or not
  the two are equal. A new camera's channel is coherent, and every new active set, every
  subscription and every unsubscription keep it so.
\<close>

theorem onMotionDetected_channel:
  "someMotion store dings =
     (\<exists>ding \<in> set dings. kind (store ding) = ''motion'' \<or> motion (store ding)) \<and>
   (ding \<in> set dings \<and> kind (store ding) = ''motion'' \<and> \<not> motion (store ding)
      \<longrightarrow> someMotion store dings) \<and>
   (motionCoherent store cam \<and> 0 < motion_refCount cam
      \<longrightarrow> motion_emitted (onActiveDings_next store dings cam) =
            motion_emitted cam @
              (if someMotion store dings = last (motion_emitted cam) then []
               else [someMotion store dings]) \<and>
          fst (onMotionDetected_subscribe store cam) = [last (motion_emitted cam)] \<and>
          last (motion_emitted cam) = someMotion store (activeDings cam) \<and>
          motion_emitted (snd (onMotionDetected_subscribe store cam)) = motion_emitted cam) \<and>
   (motion_refCount cam = 0
      \<longrightarrow> onActiveDings_next store dings cam = cam\<lparr>onActiveDings := onActiveDings cam @ [dings]\<rparr> \<and>
          fst (onMotionDetected_subscribe store cam) =
            (case motion_buffer cam of None \<Rightarrow> [] | Some buffered \<Rightarrow> [buffered])
              @ [someMotion store (activeDings cam)]) \<and>
   motionCoherent store (RingCamera_new initialData) \<and>
   (motionCoherent store cam
      \<longrightarrow> motionCoherent store (onActiveDings_next store dings cam) \<and>
          motionCoherent store (snd (onMotionDetected_subscribe store cam)) \<and>
          motionCoherent store (onMotionDetected_unsubscribe cam))"
proof -
  have c2: "ding \<in> set dings \<and> kind (store ding) = ''motion'' \<and> \<not> motion (store ding)
      \<longrightarrow> someMotion store dings"
    by (auto simp add: someMotion_iff)
  have c3: "motionCoherent store cam \<and> 0 < motion_refCount cam
      \<longrightarrow> motion_emitted (onActiveDings_next store dings cam) =
            motion_emitted cam @
              (if someMotion store dings = last (motion_emitted cam) then []
               else [someMotion store dings]) \<and>
          fst (onMotionDetected_subscribe store cam) = [last (motion_emitted cam)] \<and>
          last (motion_emitted cam) = someMotion store (activeDings cam) \<and>
          motion_emitted (snd (onMotionDetected_subscribe store cam)) = motion_emitted cam"
  proof (intro impI, elim conjE)
    assume coh: "motionCoherent store cam" and con: "0 < motion_refCount cam"
    from coh con have k: "motion_key cam = Some (someMotion store (activeDings cam))"
      and b: "motion_buffer cam = Some (someMotion store (activeDings cam))"
      and e: "motion_buffer cam =
          (if motion_emitted cam = [] then None else Some (last (motion_emitted cam)))"
      unfolding motionCoherent_def by blast+
    from b e have l: "last (motion_emitted cam) = someMotion store (activeDings cam)"
      by (auto split: if_splits)
    have n: "motion_emitted (onActiveDings_next store dings cam) =
        motion_emitted cam @
          (if someMotion store dings = last (motion_emitted cam) then []
           else [someMotion store dings])"
      using onActiveDings_next_connected [OF con, of store dings] k l by auto
    have s: "onMotionDetected_subscribe store cam =
        ([last (motion_emitted cam)], cam\<lparr>motion_refCount := motion_refCount cam + 1\<rparr>)"
      by (simp add: onMotionDetected_subscribe_connected [OF con] b l)
    show "motion_emitted (onActiveDings_next store dings cam) =
            motion_emitted cam @
              (if someMotion store dings = last (motion_emitted cam) then []
               else [someMotion store dings]) \<and>
          fst (onMotionDetected_subscribe store cam) = [last (motion_emitted cam)] \<and>
          last (motion_emitted cam) = someMotion store (activeDings cam) \<and>
          motion_emitted (snd (onMotionDetected_subscribe store cam)) = motion_emitted cam"
      using n l by (simp add: s)
  qed
  have c4: "motion_refCount cam = 0
      \<longrightarrow> onActiveDings_next store dings cam = cam\<lparr>onActiveDings := onActiveDings cam @ [dings]\<rparr> \<and>
          fst (onMotionDetected_subscribe store cam) =
            (case motion_buffer cam of None \<Rightarrow> [] | Some buffered \<Rightarrow> [buffered])
              @ [someMotion store (activeDings cam)]"
    by (simp add: onActiveDings_next_disconnected onMotionDetected_subscribe_disconnected)
  have c6: "motionCoherent store cam
      \<longrightarrow> motionCoherent store (onActiveDings_next store dings cam) \<and>
          motionCoherent store (snd (onMotionDetected_subscribe store cam)) \<and>
          motionCoherent store (onMotionDetected_unsubscribe cam)"
    using motionCoherent_next motionCoherent_subscribe motionCoherent_unsubscribe by blast
  from someMotion_iff [of store dings] c2 c3 c4 motionCoherent_new [of store initialData] c6
  show ?thesis
    by (intro conjI)
qed

lemma watchedCamera_simps:
  "motion_refCount watchedCamera = 1" "motion_emitted watchedCamera = [False]"
  "motion_buffer watchedCamera = Some False" "motion_key watchedCamera = Some False"
  "activeDings watchedCamera = []" "timers watchedCamera = []" "clock watchedCamera = 0"
  "onActiveDings watchedCamera = [[]]"
  by (simp_all add: watchedCamera_def onMotionDetected_subscribe_def onMotionDetected_next_def
      RingCamera_new_def activeDings_def someMotion_def Let_def)

lemma leftCamera_simps:
  "motion_refCount leftCamera = 0" "motion_emitted leftCamera = [False]"
  "motion_buffer leftCamera = Some False" "activeDings leftCamera = []"
  by (simp_all add: leftCamera_def onMotionDetected_unsubscribe_def watchedCamera_simps
      activeDings_def)

theorem onMotionDetected_channel_witness:
  "(1::nat) \<in> set [2, 1] \<and> kind (exampleStore 1) = ''motion'' \<and> \<not> motion (exampleStore 1) \<and>
   someMotion exampleStore [2, 1] \<and>
   motionCoherent exampleStore watchedCamera \<and> 0 < motion_refCount watchedCamera \<and>
   motion_emitted (onActiveDings_next exampleStore [2, 1] watchedCamera) = [False, True] \<and>
   fst (onMotionDetected_subscribe exampleStore watchedCamera) = [False] \<and>
   motion_refCount leftCamera = 0 \<and>
   fst (onMotionDetected_subscribe exampleStore leftCamera) = [False, False] \<and>
   motion_refCount (RingCamera_new exampleData) = 0 \<and>
   fst (onMotionDetected_subscribe exampleStore (RingCamera_new exampleData)) = [False]"
proof -
  have h1: "(1::nat) \<in> set [2, 1] \<and> kind (exampleStore 1) = ''motion'' \<and> \<not> motion (exampleStore 1)"
    by (simp add: exampleStore_def)
  have h2: "motionCoherent exampleStore watchedCamera \<and> 0 < motion_refCount watchedCamera"
    by (simp add: motionCoherent_def watchedCamera_simps someMotion_def)
  have h3: "motion_refCount leftCamera = 0"
    by (simp add: leftCamera_simps)
  have h4: "motion_refCount (RingCamera_new exampleData) = 0"
    by (simp add: RingCamera_new_def)
  note t = onMotionDetected_channel [of exampleStore "[2, 1]" 1 watchedCamera exampleData]
  note u = onMotionDetected_channel [of exampleStore "[2, 1]" 1 leftCamera exampleData]
  note v = onMotionDetected_channel [of exampleStore "[2, 1]" 1 "RingCamera_new exampleData"
      exampleData]
  have a: "someMotion exampleStore [2, 1]"
    by (rule t [THEN conjunct2, THEN conjunct1, rule_format, OF h1])
  note t3 = t [THEN conjunct2, THEN conjunct2, THEN conjunct1, rule_format, OF h2]
  have b: "motion_emitted (onActiveDings_next exampleStore [2, 1] watchedCamera) = [False, True]"
    using t3 [THEN conjunct1] a by (simp add: watchedCamera_simps)
  have c: "fst (onMotionDetected_subscribe exampleStore watchedCamera) = [False]"
    using t3 [THEN conjunct2, THEN conjunct1] by (simp add: watchedCamera_simps)
  have d: "fst (onMotionDetected_subscribe exampleStore leftCamera) = [False, False]"
    using u [THEN conjunct2, THEN conjunct2, THEN conjunct2, THEN conjunct1, rule_format, OF h3,
        THEN conjunct2]
    by (simp add: leftCamera_simps someMotion_def)
  have e: "fst (onMotionDetected_subscribe exampleStore (RingCamera_new exampleData)) = [False]"
    using v [THEN conjunct2, THEN conjunct2, THEN conjunct2, THEN conjunct1, rule_format, OF h4,
        THEN conjunct2]
    by (simp add: RingCamera_new_def activeDings_def someMotion_def)
  from h1 a h2 b c h3 d h4 e show ?thesis
    by blast
qed


lemma flaggedCamera_simps:
  "activeDings flaggedCamera = []" "motion_refCount flaggedCamera = 0"
  "motion_buffer flaggedCamera = Some True" "motion_emitted flaggedCamera = [False, True]"
  by (simp_all add: flaggedCamera_def expireDing_def processActiveDing_def
      onMotionDetected_unsubscribe_def onActiveDings_next_def onMotionDetected_next_def
      watchedCamera_simps activeDings_def someMotion_def exampleStore_def Let_def)

text \<open>
  Without the restriction to a channel that has a subscriber, the late subscriber's first
  value need not be that of the current active set, and equal neighbours are not always
  dropped. On \<open>leftCamera\<close> the next subscriber receives false twice. On
  \<open>flaggedCamera\<close> the active set is empty, and the next subscriber receives true
  first and false after it.
\<close>

theorem onMotionDetected_replay_counterexample:
  "fst (onMotionDetected_subscribe exampleStore leftCamera) = [False, False] \<and>
   activeDings flaggedCamera = [] \<and>
   \<not> someMotion exampleStore (activeDings flaggedCamera) \<and>
   fst (onMotionDetected_subscribe exampleStore flaggedCamera) = [True, False]"
  by (simp add: onMotionDetected_subscribe_disconnected leftCamera_simps flaggedCamera_simps
      someMotion_def)

subsection \<open>Active dings and their timers\<close>

lemma activeDings_expireDing:
  "activeDings (expireDing store ding cam) = filter (\<lambda>oldDing. oldDing \<noteq> ding) (activeDings cam)"
  by (simp add: expireDing_def)

lemma activeDings_expireAll:
  "activeDings (foldl (\<lambda>c (due, ding). expireDing store ding c) cam ts) =
     filter (\<lambda>d. d \<notin> snd ` set ts) (activeDings cam)"
proof (induction ts arbitrary: cam)
  case Nil
  then show ?case by simp
next
  case (Cons a ts)
  obtain due ding where a: "a = (due, ding)" by (cases a)
  show ?case
    by (simp add: Cons.IH a activeDings_expireDing)
qed

lemma activeDings_advanceClock:
  "activeDings (advanceClock store t cam) =
     filter (\<lambda>d. d \<notin> snd ` set (filter (\<lambda>(due, ding). due \<le> t) (timers cam))) (activeDings cam)"
  by (simp add: advanceClock_def activeDings_expireAll) (simp add: activeDings_def)

lemma count_list_filter_other:
  "other \<noteq> ding \<Longrightarrow> count_list (filter (\<lambda>oldDing. oldDing \<noteq> ding) xs) other = count_list xs other"
  by (induction xs) auto

lemma activeDings_processActiveDing:
  "activeDings (processActiveDing store ding cam) = activeDings cam @ [ding]"
  by (simp add: processActiveDing_def activeDings_def Let_def)

lemma timers_processActiveDing:
  "timers (processActiveDing store ding cam) = timers cam @ [(clock cam + 65000, ding)]"
  by (simp add: processActiveDing_def Let_def)

lemma expireDing_absent:
  "ding \<notin> set (activeDings cam) \<Longrightarrow> activeDings (expireDing store ding cam) = activeDings cam"
  by (auto simp add: activeDings_expireDing filter_id_conv)

lemma expired_after_65_seconds:
  "clock cam + 65000 \<le> t \<Longrightarrow>
     ding \<notin> set (activeDings (advanceClock store t (processActiveDing store ding cam)))"
  by (force simp add: activeDings_advanceClock timers_processActiveDing)

lemma active_before_65_seconds:
  "t < clock cam + 65000 \<Longrightarrow> ding \<notin> snd ` set (timers cam) \<Longrightarrow>
     ding \<in> set (activeDings (advanceClock store t (processActiveDing store ding cam)))"
  by (auto simp add: activeDings_advanceClock timers_processActiveDing
      activeDings_processActiveDing)

lemma motionCoherent_frame [simp]:
  "motionCoherent store (cam\<lparr>timers := ts\<rparr>) = motionCoherent store cam"
  "motionCoherent store (cam\<lparr>onNewDing := ns\<rparr>) = motionCoherent store cam"
  "motionCoherent store (cam\<lparr>clock := c\<rparr>) = motionCoherent store cam"
  by (simp_all add: motionCoherent_def activeDings_def)

lemma motionCoherent_expireDing:
  "motionCoherent store cam \<Longrightarrow> motionCoherent store (expireDing store ding cam)"
  by (simp add: expireDing_def motionCoherent_next)

lemma motionCoherent_processActiveDing:
  "motionCoherent store cam \<Longrightarrow> motionCoherent store (processActiveDing store ding cam)"
  by (simp add: processActiveDing_def Let_def motionCoherent_next)

lemma expireDing_connected:
  assumes coh: "motionCoherent store cam" and con: "0 < motion_refCount cam"
    and none: "\<not> someMotion store (activeDings (expireDing store ding cam))"
  shows "motion_key (expireDing store ding cam) = Some False \<and>
     motion_buffer (expireDing store ding cam) = Some False \<and>
     motion_emitted (expireDing store ding cam) =
       motion_emitted cam @ (if someMotion store (activeDings cam) then [False] else [])"
proof -
  let ?others = "filter (\<lambda>oldDing. oldDing \<noteq> ding) (activeDings cam)"
  from none have f: "someMotion store ?others = False"
    by (simp add: activeDings_expireDing)
  from coh con have k: "motion_key cam = Some (someMotion store (activeDings cam))"
    unfolding motionCoherent_def by blast
  have coh': "motionCoherent store (expireDing store ding cam)"
    using coh by (rule motionCoherent_expireDing)
  have con': "0 < motion_refCount (expireDing store ding cam)"
    using con by (simp add: expireDing_def)
  from coh' con' have "motion_key (expireDing store ding cam) =
        Some (someMotion store (activeDings (expireDing store ding cam)))"
    and "motion_buffer (expireDing store ding cam) =
        Some (someMotion store (activeDings (expireDing store ding cam)))"
    unfolding motionCoherent_def by blast+
  then have kb: "motion_key (expireDing store ding cam) = Some False"
    "motion_buffer (expireDing store ding cam) = Some False"
    using none by simp_all
  have "motion_emitted (expireDing store ding cam) =
      motion_emitted cam @ (if motion_key cam = Some False then [] else [False])"
    using onActiveDings_next_connected [OF con, of store ?others] f
    by (simp add: expireDing_def)
  then have "motion_emitted (expireDing store ding cam) =
      motion_emitted cam @ (if someMotion store (activeDings cam) then [False] else [])"
    by (simp add: k)
  with kb show ?thesis by simp
qed

lemma expireDing_disconnected:
  assumes dis: "motion_refCount cam = 0"
  shows "motion_buffer (expireDing store ding cam) = motion_buffer cam \<and>
     motion_emitted (expireDing store ding cam) = motion_emitted cam \<and>
     (\<not> someMotion store (activeDings (expireDing store ding cam)) \<longrightarrow>
        fst (onMotionDetected_subscribe store (expireDing store ding cam)) =
          (case motion_buffer cam of None \<Rightarrow> [] | Some buffered \<Rightarrow> [buffered]) @ [False])"
proof -
  let ?cam' = "expireDing store ding cam"
  have eq: "?cam' = cam\<lparr>onActiveDings := onActiveDings cam
      @ [filter (\<lambda>oldDing. oldDing \<noteq> ding) (activeDings cam)]\<rparr>"
    by (simp add: expireDing_def onActiveDings_next_disconnected [OF dis])
  have dis': "motion_refCount ?cam' = 0"
    by (simp add: eq dis)
  have b: "motion_buffer ?cam' = motion_buffer cam" and e: "motion_emitted ?cam' = motion_emitted cam"
    by (simp_all add: eq)
  have "fst (onMotionDetected_subscribe store ?cam') =
      (case motion_buffer cam of None \<Rightarrow> [] | Some buffered \<Rightarrow> [buffered]) @ [False]"
    if "\<not> someMotion store (activeDings ?cam')"
    using that by (simp add: onMotionDetected_subscribe_disconnected [OF dis'] b)
  with b e show ?thesis by blast
qed


lemma exampleCamera_simps:
  "activeDings exampleCamera = [2]" "timers exampleCamera = [(65000, 2)]"
  "clock exampleCamera = 0" "onActiveDings exampleCamera = [[], [2]]"
  "motion_refCount exampleCamera = 0"
  by (simp_all add: exampleCamera_def processActiveDing_def activeDings_def RingCamera_new_def
      onActiveDings_next_def Let_def)

lemma motionCamera_simps:
  "activeDings motionCamera = [1]" "timers motionCamera = [(65000, 1)]"
  "motion_refCount motionCamera = 1" "motion_emitted motionCamera = [False, True]"
  "motion_buffer motionCamera = Some True" "motion_key motionCamera = Some True"
  by (simp_all add: motionCamera_def processActiveDing_def onActiveDings_next_def
      onMotionDetected_next_def watchedCamera_simps activeDings_def someMotion_def
      exampleStore_def Let_def)

lemma staleCamera_simps:
  "activeDings staleCamera = []" "motion_refCount staleCamera = 0"
  "motion_buffer staleCamera = Some True" "motion_emitted staleCamera = [False, True]"
  by (simp_all add: staleCamera_def motionCamera_def advanceClock_def expireDing_def processActiveDing_def
      onMotionDetected_unsubscribe_def onActiveDings_next_def onMotionDetected_next_def
      watchedCamera_simps activeDings_def someMotion_def exampleStore_def Let_def)

text \<open>
  Claim C5. \<open>processActiveDing\<close> announces the ding, appends it to the active set and
  starts one timer of its own, due 65 seconds after the call. The timer's callback always
  emits a new snapshot: the current active set without the addresses equal to the ding's. So
  the ding is gone, every other ding is there as often as before, and for a ding that is no
  longer in the set the snapshot has the contents of the one before. While the motion channel
  has a subscriber and is coherent, a removal that leaves no ding of kind \<open>motion\<close> or
  with the motion flag makes false the channel's current value, emitted if the value before
  was true. While the channel has no subscriber, the removal leaves the replay buffer and the
  values emitted as they were, and if no such ding remains the next subscriber receives the
  buffered value, if there is one, and false after it. Recording and removal keep the channel
  coherent. Moving the clock to \<open>t\<close> removes the dings whose timers are due by then: a
  ding recorded at clock \<open>c\<close> is gone once \<open>c + 65000 \<le> t\<close>, and is still active
  before, if no older timer holds its address.
\<close>

theorem processActiveDing_expiry:
  "timers (processActiveDing store ding cam) = timers cam @ [(clock cam + 65 * 1000, ding)] \<and>
   activeDings (processActiveDing store ding cam) = activeDings cam @ [ding] \<and>
   onNewDing (processActiveDing store ding cam) = onNewDing cam @ [ding] \<and>
   activeDings (expireDing store ding cam) = filter (\<lambda>oldDing. oldDing \<noteq> ding) (activeDings cam) \<and>
   onActiveDings (expireDing store ding cam) =
     onActiveDings cam @ [filter (\<lambda>oldDing. oldDing \<noteq> ding) (activeDings cam)] \<and>
   timers (expireDing store ding cam) = timers cam \<and>
   ding \<notin> set (activeDings (expireDing store ding cam)) \<and>
   (other \<noteq> ding \<longrightarrow>
      count_list (activeDings (expireDing store ding cam)) other = count_list (activeDings cam) other) \<and>
   (ding \<notin> set (activeDings cam) \<longrightarrow> activeDings (expireDing store ding cam) = activeDings cam) \<and>
   (motionCoherent store cam \<and> 0 < motion_refCount cam \<and>
    \<not> someMotion store (activeDings (expireDing store ding cam))
      \<longrightarrow> motion_key (expireDing store ding cam) = Some False \<and>
          motion_buffer (expireDing store ding cam) = Some False \<and>
          motion_emitted (expireDing store ding cam) =
            motion_emitted cam @ (if someMotion store (activeDings cam) then [False] else [])) \<and>
   (motion_refCount cam = 0
      \<longrightarrow> motion_buffer (expireDing store ding cam) = motion_buffer cam \<and>
          motion_emitted (expireDing store ding cam) = motion_emitted cam \<and>
          (\<not> someMotion store (activeDings (expireDing store ding cam)) \<longrightarrow>
             fst (onMotionDetected_subscribe store (expireDing store ding cam)) =
               (case motion_buffer cam of None \<Rightarrow> [] | Some buffered \<Rightarrow> [buffered]) @ [False])) \<and>
   (motionCoherent store cam
      \<longrightarrow> motionCoherent store (processActiveDing store ding cam) \<and>
          motionCoherent store (expireDing store ding cam)) \<and>
   activeDings (advanceClock store t cam) =
     filter (\<lambda>d. d \<notin> snd ` set (filter (\<lambda>(due, ding). due \<le> t) (timers cam))) (activeDings cam) \<and>
   (clock cam + 65 * 1000 \<le> t \<longrightarrow>
      ding \<notin> set (activeDings (advanceClock store t (processActiveDing store ding cam)))) \<and>
   (t < clock cam + 65 * 1000 \<and> ding \<notin> snd ` set (timers cam) \<longrightarrow>
      ding \<in> set (activeDings (advanceClock store t (processActiveDing store ding cam))))"
proof -
  have c1: "timers (processActiveDing store ding cam) = timers cam @ [(clock cam + 65 * 1000, ding)]"
    using timers_processActiveDing [of store ding cam] by simp
  have c3: "onNewDing (processActiveDing store ding cam) = onNewDing cam @ [ding]"
    by (simp add: processActiveDing_def Let_def)
  have c5: "onActiveDings (expireDing store ding cam) =
      onActiveDings cam @ [filter (\<lambda>oldDing. oldDing \<noteq> ding) (activeDings cam)]"
    by (simp add: expireDing_def)
  have c6: "timers (expireDing store ding cam) = timers cam"
    by (simp add: expireDing_def)
  have c7: "ding \<notin> set (activeDings (expireDing store ding cam))"
    by (simp add: activeDings_expireDing)
  have c8: "other \<noteq> ding \<longrightarrow>
      count_list (activeDings (expireDing store ding cam)) other = count_list (activeDings cam) other"
    by (simp add: activeDings_expireDing count_list_filter_other)
  have c9: "ding \<notin> set (activeDings cam) \<longrightarrow> activeDings (expireDing store ding cam) = activeDings cam"
    by (simp add: expireDing_absent)
  have c10: "motionCoherent store cam \<and> 0 < motion_refCount cam \<and>
      \<not> someMotion store (activeDings (expireDing store ding cam))
      \<longrightarrow> motion_key (expireDing store ding cam) = Some False \<and>
          motion_buffer (expireDing store ding cam) = Some False \<and>
          motion_emitted (expireDing store ding cam) =
            motion_emitted cam @ (if someMotion store (activeDings cam) then [False] else [])"
    using expireDing_connected [of store cam ding] by blast
  have c11: "motion_refCount cam = 0
      \<longrightarrow> motion_buffer (expireDing store ding cam) = motion_buffer cam \<and>
          motion_emitted (expireDing store ding cam) = motion_emitted cam \<and>
          (\<not> someMotion store (activeDings (expireDing store ding cam)) \<longrightarrow>
             fst (onMotionDetected_subscribe store (expireDing store ding cam)) =
               (case motion_buffer cam of None \<Rightarrow> [] | Some buffered \<Rightarrow> [buffered]) @ [False])"
    using expireDing_disconnected [of cam store ding] by blast
  have c12: "motionCoherent store cam
      \<longrightarrow> motionCoherent store (processActiveDing store ding cam) \<and>
          motionCoherent store (expireDing store ding cam)"
    by (simp add: motionCoherent_processActiveDing motionCoherent_expireDing)
  have c14: "clock cam + 65 * 1000 \<le> t \<longrightarrow>
      ding \<notin> set (activeDings (advanceClock store t (processActiveDing store ding cam)))"
    using expired_after_65_seconds [of cam t ding store] by simp
  have c15: "t < clock cam + 65 * 1000 \<and> ding \<notin> snd ` set (timers cam) \<longrightarrow>
      ding \<in> set (activeDings (advanceClock store t (processActiveDing store ding cam)))"
    using active_before_65_seconds [of t cam ding store] by simp
  from c1 activeDings_processActiveDing [of store ding cam] c3
    activeDings_expireDing [of store ding cam] c5 c6 c7 c8 c9 c10 c11 c12
    activeDings_advanceClock [of store t cam] c14 c15
  show ?thesis
    by (intro conjI)
qed

theorem processActiveDing_expiry_witness:
  "(2::nat) \<noteq> 1 \<and>
   count_list (activeDings (expireDing exampleStore 1 (processActiveDing exampleStore 1 exampleCamera))) 2 = 1 \<and>
   activeDings (expireDing exampleStore 1 (processActiveDing exampleStore 1 exampleCamera)) = [2] \<and>
   1 \<notin> set (activeDings exampleCamera) \<and>
   activeDings (expireDing exampleStore 1 exampleCamera) = [2] \<and>
   motionCoherent exampleStore motionCamera \<and> 0 < motion_refCount motionCamera \<and>
   \<not> someMotion exampleStore (activeDings (expireDing exampleStore 1 motionCamera)) \<and>
   motion_buffer (expireDing exampleStore 1 motionCamera) = Some False \<and>
   motion_emitted (expireDing exampleStore 1 motionCamera) = [False, True, False] \<and>
   motion_refCount (onMotionDetected_unsubscribe motionCamera) = 0 \<and>
   motion_buffer (expireDing exampleStore 1 (onMotionDetected_unsubscribe motionCamera)) = Some True \<and>
   fst (onMotionDetected_subscribe exampleStore
          (expireDing exampleStore 1 (onMotionDetected_unsubscribe motionCamera))) = [True, False] \<and>
   clock exampleCamera + 65 * 1000 \<le> 65000 \<and>
   1 \<notin> set (activeDings (advanceClock exampleStore 65000 (processActiveDing exampleStore 1 exampleCamera))) \<and>
   64999 < clock exampleCamera + 65 * 1000 \<and> 1 \<notin> snd ` set (timers exampleCamera) \<and>
   1 \<in> set (activeDings (advanceClock exampleStore 64999 (processActiveDing exampleStore 1 exampleCamera)))"
proof -
  let ?cam2 = "processActiveDing exampleStore 1 exampleCamera"
  let ?gone = "onMotionDetected_unsubscribe motionCamera"
  have a2: "activeDings ?cam2 = [2, 1]"
    by (simp add: activeDings_processActiveDing exampleCamera_simps)
  note t = processActiveDing_expiry [of exampleStore 1 ?cam2 2 0]
  note u = processActiveDing_expiry [of exampleStore 1 exampleCamera 2 65000]
  note v = processActiveDing_expiry [of exampleStore 1 exampleCamera 2 64999]
  note w = processActiveDing_expiry [of exampleStore 1 motionCamera 2 0]
  note x = processActiveDing_expiry [of exampleStore 1 ?gone 2 0]
  have e: "activeDings (expireDing exampleStore 1 ?cam2) = [2]"
    using t a2 by simp
  have h1: "(2::nat) \<noteq> 1" by simp
  have c1: "count_list (activeDings (expireDing exampleStore 1 ?cam2)) 2 = 1"
    using t h1 a2 by simp
  have h2: "1 \<notin> set (activeDings exampleCamera)"
    by (simp add: exampleCamera_simps)
  have c2: "activeDings (expireDing exampleStore 1 exampleCamera) = [2]"
    using u h2 by (simp add: exampleCamera_simps)
  have h3: "motionCoherent exampleStore motionCamera" "0 < motion_refCount motionCamera"
    by (simp_all add: motionCoherent_def motionCamera_simps someMotion_def exampleStore_def)
  have em: "activeDings (expireDing exampleStore 1 motionCamera) = []"
    by (simp add: activeDings_expireDing motionCamera_simps)
  have h4: "\<not> someMotion exampleStore (activeDings (expireDing exampleStore 1 motionCamera))"
    unfolding em by (simp add: someMotion_def)
  have sm: "someMotion exampleStore (activeDings motionCamera)"
    by (simp add: motionCamera_simps someMotion_def exampleStore_def)
  from w h3 h4 have w10: "motion_key (expireDing exampleStore 1 motionCamera) = Some False \<and>
      motion_buffer (expireDing exampleStore 1 motionCamera) = Some False \<and>
      motion_emitted (expireDing exampleStore 1 motionCamera) =
        motion_emitted motionCamera @
          (if someMotion exampleStore (activeDings motionCamera) then [False] else [])"
    by blast
  have c3: "motion_buffer (expireDing exampleStore 1 motionCamera) = Some False"
    using w10 by blast
  have c4: "motion_emitted (expireDing exampleStore 1 motionCamera) = [False, True, False]"
    using w10 sm by (simp add: motionCamera_simps)
  have h5: "motion_refCount ?gone = 0"
    by (simp add: onMotionDetected_unsubscribe_def motionCamera_simps)
  have bg: "motion_buffer ?gone = Some True" "activeDings ?gone = [1]"
    by (simp_all add: onMotionDetected_unsubscribe_def motionCamera_simps activeDings_def
        motionCamera_simps [unfolded activeDings_def])
  have eg: "activeDings (expireDing exampleStore 1 ?gone) = []"
    by (simp add: activeDings_expireDing bg)
  have h6: "\<not> someMotion exampleStore (activeDings (expireDing exampleStore 1 ?gone))"
    unfolding eg by (simp add: someMotion_def)
  from x h5 h6 have x11: "motion_buffer (expireDing exampleStore 1 ?gone) = motion_buffer ?gone \<and>
      fst (onMotionDetected_subscribe exampleStore (expireDing exampleStore 1 ?gone)) =
        (case motion_buffer ?gone of None \<Rightarrow> [] | Some buffered \<Rightarrow> [buffered]) @ [False]"
    by blast
  have c5: "motion_buffer (expireDing exampleStore 1 ?gone) = Some True"
    using x11 by (simp add: bg)
  have c6: "fst (onMotionDetected_subscribe exampleStore (expireDing exampleStore 1 ?gone))
      = [True, False]"
    using x11 by (simp add: bg)
  have h7: "clock exampleCamera + 65 * 1000 \<le> 65000"
    by (simp add: exampleCamera_simps)
  have c7: "1 \<notin> set (activeDings (advanceClock exampleStore 65000 ?cam2))"
    using u h7 by blast
  have h8: "64999 < clock exampleCamera + 65 * 1000 \<and> 1 \<notin> snd ` set (timers exampleCamera)"
    by (simp add: exampleCamera_simps)
  have c8: "1 \<in> set (activeDings (advanceClock exampleStore 64999 ?cam2))"
    using v h8 by blast
  from h1 c1 e h2 c2 h3 h4 c3 c4 h5 c5 c6 h7 c7 h8 c8 show ?thesis by blast
qed

text \<open>
  Without a subscriber the removal recomputes nothing. On \<open>staleCamera\<close> the one ding
  was removed when its timer fired, no ding remains, and yet the replay buffer holds true: the
  next subscriber receives true first and false after it.
\<close>

theorem expireDing_motion_counterexample:
  "activeDings staleCamera = [] \<and>
   \<not> someMotion exampleStore (activeDings staleCamera) \<and>
   motion_buffer staleCamera = Some True \<and>
   fst (onMotionDetected_subscribe exampleStore staleCamera) = [True, False]"
  by (simp add: onMotionDetected_subscribe_disconnected staleCamera_simps someMotion_def)

subsection \<open>Commands\<close>

lemma hasLight_updateAll: "hasLight (updateAll us cam) = hasLight cam"
  by (induction us arbitrary: cam) (simp_all add: updateAll_def updateData_def)

lemma hasSiren_updateAll: "hasSiren (updateAll us cam) = hasSiren cam"
  by (induction us arbitrary: cam) (simp_all add: updateAll_def updateData_def)

text \<open>
  Claim C9. On a camera without the light capability \<open>setLight\<close> returns
  \<open>false\<close> and leaves the whole state as it was: no request is issued and the current
  record is the same. \<open>setSiren\<close> does the same on a camera without the siren
  capability. The capabilities are those of the record the camera was constructed with
  (\<open>led_status\<close>, \<open>siren_status\<close> present), whatever records were pushed since.
\<close>

theorem setLight_unsupported:
  "(\<not> hasLight cam \<longrightarrow>
      setLight on response cam = (Inr False, cam) \<and>
      requests (snd (setLight on response cam)) = requests cam \<and>
      data (snd (setLight on response cam)) = data cam) \<and>
   (\<not> hasSiren cam \<longrightarrow>
      setSiren on response cam = (Inr False, cam) \<and>
      requests (snd (setSiren on response cam)) = requests cam \<and>
      data (snd (setSiren on response cam)) = data cam) \<and>
   hasLight (updateAll us (RingCamera_new initialData)) = (led_status initialData \<noteq> None) \<and>
   hasSiren (updateAll us (RingCamera_new initialData)) = (siren_status initialData \<noteq> None)"
  by (simp add: setLight_def setLight_call_def setSiren_def setSiren_call_def
      hasLight_updateAll hasSiren_updateAll RingCamera_new_def)

theorem setLight_unsupported_witness:
  "\<not> hasLight (RingCamera_new exampleData) \<and> \<not> hasSiren (RingCamera_new exampleData) \<and>
   setLight True (Inr ()) (RingCamera_new exampleData) = (Inr False, RingCamera_new exampleData) \<and>
   setSiren True (Inr ()) (RingCamera_new exampleData) = (Inr False, RingCamera_new exampleData) \<and>
   requests (snd (setLight True (Inr ()) (RingCamera_new exampleData))) = [] \<and>
   data (snd (setSiren True (Inr ()) (RingCamera_new exampleData))) = exampleData"
proof -
  let ?cam = "RingCamera_new exampleData"
  have h: "\<not> hasLight ?cam" "\<not> hasSiren ?cam"
    by (simp_all add: RingCamera_new_def exampleData_def)
  have r: "requests ?cam = []" "data ?cam = exampleData"
    by (simp_all add: requests_def data_def RingCamera_new_def)
  note t = setLight_unsupported [of ?cam True "Inr ()" "[]" exampleData]
  from t h r show ?thesis by simp
qed

lemma data_perform [simp]: "data (perform e cam) = data cam"
  by (simp add: data_def perform_def)

lemma onData_perform [simp]: "onData (perform e cam) = onData cam"
  by (simp add: perform_def)

text \<open>
  Claim C10. \<open>setLight\<close> and \<open>setSiren\<close> push no record before the transport has
  answered, and when the transport rejects the request the part after the \<open>await\<close>
  does nothing but pass the rejection on: the caller gets the transport's error and the
  records of the camera are those from before. Only a successful answer is followed by
  the push of the updated record.
\<close>

theorem setLight_transport_failure:
  "onData (snd (setLight_call on cam)) = onData cam \<and>
   setLight_resume on (Inl e) cam = (Inl e, cam) \<and>
   onData (snd (setLight on (Inl e) cam)) = onData cam \<and>
   data (snd (setLight on (Inl e) cam)) = data cam \<and>
   (hasLight cam \<longrightarrow>
      setLight on (Inl e) cam =
        (Inl e, perform (Request (putRequest
           (doorbotUrl (''floodlight_light_'' @ (if on then ''on'' else ''off'')) cam))) cam) \<and>
      setLight on (Inr ()) cam =
        (Inr True,
         updateData ((data cam)\<lparr>led_status := Some (if on then ''on'' else ''off'')\<rparr>)
           (perform (Request (putRequest
              (doorbotUrl (''floodlight_light_'' @ (if on then ''on'' else ''off'')) cam))) cam))) \<and>
   onData (snd (setSiren_call on cam)) = onData cam \<and>
   setSiren_resume on (Inl e) cam = (Inl e, cam) \<and>
   onData (snd (setSiren on (Inl e) cam)) = onData cam \<and>
   data (snd (setSiren on (Inl e) cam)) = data cam \<and>
   (hasSiren cam \<longrightarrow>
      setSiren on (Inl e) cam =
        (Inl e, perform (Request (putRequest
           (doorbotUrl (''siren_'' @ (if on then ''on'' else ''off'')) cam))) cam) \<and>
      setSiren on (Inr ()) cam =
        (Inr True,
         updateData ((data cam)\<lparr>siren_status := Some \<lparr>seconds_remaining = 1\<rparr>\<rparr>)
           (perform (Request (putRequest
              (doorbotUrl (''siren_'' @ (if on then ''on'' else ''off'')) cam))) cam)))"
  by (simp add: setLight_def setLight_call_def setLight_resume_def
      setSiren_def setSiren_call_def setSiren_resume_def Let_def)

theorem setLight_transport_failure_witness:
  "hasLight (RingCamera_new lightData) \<and> hasSiren (RingCamera_new lightData) \<and>
   fst (setLight True (Inl (TransportError ''timeout'')) (RingCamera_new lightData)) =
     Inl (TransportError ''timeout'') \<and>
   data (snd (setLight True (Inl (TransportError ''timeout'')) (RingCamera_new lightData))) = lightData \<and>
   data (snd (setLight True (Inr ()) (RingCamera_new lightData))) = lightData\<lparr>led_status := Some ''on''\<rparr> \<and>
   fst (setSiren True (Inl (TransportError ''timeout'')) (RingCamera_new lightData)) =
     Inl (TransportError ''timeout'') \<and>
   data (snd (setSiren True (Inl (TransportError ''timeout'')) (RingCamera_new lightData))) = lightData"
proof -
  let ?cam = "RingCamera_new lightData"
  have h: "hasLight ?cam" "hasSiren ?cam"
    by (simp_all add: RingCamera_new_def lightData_def)
  have d: "data ?cam = lightData"
    by (simp add: data_def RingCamera_new_def)
  note t = setLight_transport_failure [of True ?cam "TransportError ''timeout''"]
  from t h d show ?thesis
    by (simp add: updateData_def data_def)
qed


subsection \<open>\<open>getSnapshot\<close>\<close>

text \<open>The loop reads the camera's id and writes its effects; the rest is carried along.\<close>

lemma refreshLoop_frame:
  assumes f: "\<And>c e. f (perform e c) = perform e (f c)" and i: "\<And>c. ident (f c) = ident c"
  shows "refreshLoop responses delay maxAttempts i (f cam) =
     (case refreshLoop responses delay maxAttempts i cam of (outcome, cam') \<Rightarrow> (outcome, f cam'))"
proof (induction responses delay maxAttempts i cam rule: refreshLoop.induct)
  case (1 responses delay maxAttempts i cam)
  have tr: "timestampsRequest (f cam) = timestampsRequest cam"
    by (simp add: timestampsRequest_def i)
  have u: "updateTimestamp (responses i) (f cam) =
      (case updateTimestamp (responses i) cam of (x, cam') \<Rightarrow> (x, f cam'))"
    by (simp add: updateTimestamp_def Let_def tr f split: sum.splits)
  show ?case
  proof (cases "i < maxAttempts")
    case False
    then show ?thesis
      by (simp add: refreshLoop.simps [of _ _ _ i])
  next
    case True
    show ?thesis
    proof (cases "updateTimestamp (responses i) cam")
      case (Pair x cam')
      show ?thesis
      proof (cases x)
        case (Inl e)
        then show ?thesis
          using True Pair by (simp add: refreshLoop.simps [of _ _ _ i] u)
      next
        case (Inr p)
        obtain capture arrival where p: "p = (capture, arrival)" by (cases p)
        show ?thesis
        proof (cases "\<bar>arrival - capture\<bar> < snapshotTimestampGracePeriod")
          case fresh: True
          then show ?thesis
            using True Pair Inr p by (simp add: refreshLoop.simps [of _ _ _ i] u)
        next
          case stale: False
          have ih: "refreshLoop responses delay maxAttempts (Suc i) (f (perform (Delay delay) cam')) =
             (case refreshLoop responses delay maxAttempts (Suc i) (perform (Delay delay) cam') of
                (outcome, cam'') \<Rightarrow> (outcome, f cam''))"
            by (rule "1.IH" [OF True Pair [symmetric] Inr p [symmetric] refl stale])
          show ?thesis
            using True Pair Inr p stale
            by (simp add: refreshLoop.simps [of _ _ _ i] u f [symmetric] ih)
        qed
      qed
    qed
  qed
qed

lemma refreshSnapshot_frame:
  assumes f: "\<And>c e. f (perform e c) = perform e (f c)" and i: "\<And>c. ident (f c) = ident c"
    and h: "hasSlowSnapshotRefresh (f cam) = hasSlowSnapshotRefresh cam"
  shows "refreshSnapshot responses allowStale (f cam) =
     (case refreshSnapshot responses allowStale cam of (outcome, cam') \<Rightarrow> (outcome, f cam'))"
proof -
  have "snapshotRefreshDelay (f cam) allowStale = snapshotRefreshDelay cam allowStale"
    "maxSnapshotRefreshAttempts (f cam) allowStale = maxSnapshotRefreshAttempts cam allowStale"
    by (simp_all add: snapshotRefreshDelay_def maxSnapshotRefreshAttempts_def
        maxSnapshotRefreshSeconds_def slowSnapshots_def h)
  then show ?thesis
    by (simp add: refreshSnapshot_def refreshLoop_frame [of f, OF f i])
qed


lemma refreshLoop_effects_only:
  "snd (refreshLoop responses delay maxAttempts i cam) =
     cam\<lparr>effects := effects (snd (refreshLoop responses delay maxAttempts i cam))\<rparr>"
proof (induction responses delay maxAttempts i cam rule: refreshLoop.induct)
  case (1 responses delay maxAttempts i cam)
  let ?cam' = "perform (Request (timestampsRequest cam)) cam"
  show ?case
  proof (cases "i < maxAttempts")
    case False
    then show ?thesis
      by (simp add: refreshLoop.simps [of _ _ _ i])
  next
    case True
    show ?thesis
    proof (cases "responses i")
      case (Inl e)
      then show ?thesis
        using True
        by (simp add: refreshLoop.simps [of _ _ _ i] updateTimestamp_def Let_def perform_def)
    next
      case (Inr r)
      let ?c = "case timestamps r of [] \<Rightarrow> 0 | t # _ \<Rightarrow> timestamp t"
      have u: "updateTimestamp (responses i) cam = (Inr (?c, responseTimestamp r), ?cam')"
        by (simp add: updateTimestamp_def Inr Let_def)
      show ?thesis
      proof (cases "\<bar>responseTimestamp r - ?c\<bar> < snapshotTimestampGracePeriod")
        case fresh: True
        then show ?thesis
          using True by (simp add: refreshLoop.simps [of _ _ _ i] u perform_def)
      next
        case stale: False
        let ?next = "refreshLoop responses delay maxAttempts (Suc i) (perform (Delay delay) ?cam')"
        have step: "refreshLoop responses delay maxAttempts i cam = ?next"
          using True stale by (simp add: refreshLoop.simps [of _ _ _ i] u Let_def)
        have "snd ?next = (perform (Delay delay) ?cam')\<lparr>effects := effects (snd ?next)\<rparr>"
          by (rule "1.IH" [OF True u [symmetric] refl refl refl stale])
        then have "snd ?next = cam\<lparr>effects := effects (snd ?next)\<rparr>"
          by (simp add: perform_def)
        then show ?thesis
          by (simp only: step)
      qed
    qed
  qed
qed

lemma refreshSnapshot_effects_only:
  "refreshSnapshot responses allowStale cam =
     (fst (refreshSnapshot responses allowStale cam),
      cam\<lparr>effects := effects (snd (refreshSnapshot responses allowStale cam))\<rparr>)"
  using refreshLoop_effects_only
    [of responses "snapshotRefreshDelay cam allowStale" "maxSnapshotRefreshAttempts cam allowStale" 0 cam]
  by (simp add: refreshSnapshot_def prod_eq_iff)

lemma settle_not_pending: "settle outcome \<noteq> Pending a"
  by (cases outcome) (simp_all add: settle_def)

lemma getSnapshot_resume_settled:
  assumes "c < length (calls cam)" and "calls cam ! c = Awaiting s"
    and "s < length (sessions cam)" and "sessions cam ! s = settle outcome"
  shows "getSnapshot_resume c imageResponse cam =
     Some (imageResponse,
           cam\<lparr>refreshSnapshotInProgress := None,
               calls := (calls cam)[c := Returned],
               effects := effects cam @ (case outcome of Inl e \<Rightarrow> [LogError e] | Inr _ \<Rightarrow> [])
                          @ [Request (imageRequest cam)]\<rparr>)"
  using assms
  by (cases outcome)
     (simp_all add: getSnapshot_resume_def settle_def perform_def imageRequest_def Let_def)


lemma getSnapshot_alone:
  assumes slot: "refreshSnapshotInProgress cam = None"
  shows "getSnapshot allowStale responses imageResponse cam =
     Some (imageResponse,
           cam\<lparr>refreshSnapshotInProgress := None,
               sessions := sessions cam @ [settle (fst (refreshSnapshot responses allowStale cam))],
               calls := calls cam @ [Returned],
               effects := effects (snd (refreshSnapshot responses allowStale cam))
                 @ (case fst (refreshSnapshot responses allowStale cam) of
                      Inl e \<Rightarrow> [LogError e] | Inr _ \<Rightarrow> [])
                 @ [Request (imageRequest cam)]\<rparr>)"
proof -
  let ?n = "length (sessions cam)"
  let ?c = "length (calls cam)"
  let ?f = "\<lambda>c. c\<lparr>refreshSnapshotInProgress := Some ?n,
                     sessions := sessions cam @ [Pending allowStale],
                     calls := calls cam @ [Awaiting ?n]\<rparr>"
  let ?outcome = "fst (refreshSnapshot responses allowStale cam)"
  let ?es = "effects (snd (refreshSnapshot responses allowStale cam))"
  have cam1: "getSnapshot_call allowStale cam = ?f cam"
    by (simp add: getSnapshot_call_def slot)
  have loop: "refreshSnapshot responses allowStale (?f cam) = (?outcome, ?f (cam\<lparr>effects := ?es\<rparr>))"
    using refreshSnapshot_frame [of ?f cam responses allowStale]
      refreshSnapshot_effects_only [of responses allowStale cam]
    by (simp add: perform_def split: prod.splits)
  let ?cam2 = "cam\<lparr>refreshSnapshotInProgress := Some ?n,
                   sessions := sessions cam @ [settle ?outcome],
                   calls := calls cam @ [Awaiting ?n],
                   effects := ?es\<rparr>"
  have cam2: "runSession ?n responses (?f cam) = ?cam2"
    by (simp add: runSession_def loop)
  have res: "getSnapshot_resume ?c imageResponse ?cam2 =
     Some (imageResponse,
           ?cam2\<lparr>refreshSnapshotInProgress := None,
               calls := (calls ?cam2)[?c := Returned],
               effects := effects ?cam2 @ (case ?outcome of Inl e \<Rightarrow> [LogError e] | Inr _ \<Rightarrow> [])
                          @ [Request (imageRequest ?cam2)]\<rparr>)"
    by (rule getSnapshot_resume_settled [where s = ?n and outcome = ?outcome]) simp_all
  have "getSnapshot allowStale responses imageResponse cam =
      getSnapshot_resume ?c imageResponse ?cam2"
    by (simp add: getSnapshot_def cam1 cam2 Let_def)
  then show ?thesis
    by (simp add: res imageRequest_def)
qed

text \<open>
  Claim C4. Whatever the outcome of the refresh session (fresh, exhausted after all
  attempts, or a transport error inside the loop), the caller that resumes issues the image
  request (the url \<open>snapshots/image/\<close> followed by the camera's id in decimal digits,
  response type \<open>arraybuffer\<close>) and its result is what the transport answers to that
  request; a failure of the session appears among the effects as one logged error and
  nowhere else. The same holds for a whole call of \<open>getSnapshot\<close> that runs alone on a
  camera with an empty slot.
\<close>

theorem getSnapshot_soft_failure:
  "(c < length (calls cam) \<and> calls cam ! c = Awaiting s \<and>
    s < length (sessions cam) \<and> sessions cam ! s = settle outcome
      \<longrightarrow> map_option fst (getSnapshot_resume c imageResponse cam) = Some imageResponse \<and>
          map_option (effects \<circ> snd) (getSnapshot_resume c imageResponse cam) =
            Some (effects cam @ (case outcome of Inl e \<Rightarrow> [LogError e] | Inr _ \<Rightarrow> [])
                  @ [Request \<lparr> req_method = None,
                      req_url = clientApi (''snapshots/image/'' @ showNat (ident cam)),
                      req_data = None, req_json = None,
                      req_responseType = Some ''arraybuffer'' \<rparr>])) \<and>
   (refreshSnapshotInProgress cam = None
      \<longrightarrow> map_option fst (getSnapshot allowStale responses imageResponse cam) = Some imageResponse \<and>
          map_option (effects \<circ> snd) (getSnapshot allowStale responses imageResponse cam) =
            Some (effects (snd (refreshSnapshot responses allowStale cam))
                  @ (case fst (refreshSnapshot responses allowStale cam) of
                       Inl e \<Rightarrow> [LogError e] | Inr _ \<Rightarrow> [])
                  @ [Request \<lparr> req_method = None,
                      req_url = clientApi (''snapshots/image/'' @ showNat (ident cam)),
                      req_data = None, req_json = None,
                      req_responseType = Some ''arraybuffer'' \<rparr>])) \<and>
   digitsValue (showNat (ident cam)) = ident cam"
proof (intro conjI impI; (elim conjE)?)
  assume a: "c < length (calls cam)" "calls cam ! c = Awaiting s"
    "s < length (sessions cam)" "sessions cam ! s = settle outcome"
  note eq = getSnapshot_resume_settled [OF a, of imageResponse]
  show "map_option fst (getSnapshot_resume c imageResponse cam) = Some imageResponse"
    by (simp add: eq)
  show "map_option (effects \<circ> snd) (getSnapshot_resume c imageResponse cam) =
      Some (effects cam @ (case outcome of Inl e \<Rightarrow> [LogError e] | Inr _ \<Rightarrow> [])
            @ [Request \<lparr> req_method = None,
                      req_url = clientApi (''snapshots/image/'' @ showNat (ident cam)),
                      req_data = None, req_json = None,
                      req_responseType = Some ''arraybuffer'' \<rparr>])"
    by (simp add: eq imageRequest_def)
next
  assume slot: "refreshSnapshotInProgress cam = None"
  note eq = getSnapshot_alone [OF slot, of allowStale responses imageResponse]
  show "map_option fst (getSnapshot allowStale responses imageResponse cam) = Some imageResponse"
    by (simp add: eq)
  show "map_option (effects \<circ> snd) (getSnapshot allowStale responses imageResponse cam) =
      Some (effects (snd (refreshSnapshot responses allowStale cam))
            @ (case fst (refreshSnapshot responses allowStale cam) of
                 Inl e \<Rightarrow> [LogError e] | Inr _ \<Rightarrow> [])
            @ [Request \<lparr> req_method = None,
                      req_url = clientApi (''snapshots/image/'' @ showNat (ident cam)),
                      req_data = None, req_json = None,
                      req_responseType = Some ''arraybuffer'' \<rparr>])"
    by (simp add: eq imageRequest_def)
next
  show "digitsValue (showNat (ident cam)) = ident cam"
    by (rule digitsValue_showNat)
qed

lemma showNat_7: "showNat 7 = ''7''"
  by code_simp

lemma length_staleRounds: "length (staleRounds cam delay n) = 2 * n"
  by (induction n) (simp_all add: staleRounds_def)

lemma refreshSnapshot_first_fresh:
  "refreshSnapshot (\<lambda>k. sample 100 10099) allowStale cam =
     (Inr (), perform (Request (timestampsRequest cam)) cam)"
  using refreshSnapshot_fresh [of "\<lambda>k. sample 100 10099" 0 cam allowStale
      "\<lparr>timestamps = [\<lparr>timestamp = 100\<rparr>], responseTimestamp = 10099\<rparr>"]
  by (simp add: staleBefore_def sample_def timestampAge_def snapshotTimestampGracePeriod_def
      staleRounds_def perform_def maxSnapshotRefreshAttempts_def snapshotRefreshDelay_def
      maxSnapshotRefreshSeconds_def)

lemma refreshSnapshot_first_error:
  "refreshSnapshot (\<lambda>k. Inl e) allowStale cam =
     (Inl e, perform (Request (timestampsRequest cam)) cam)"
  by (simp add: refreshSnapshot_def refreshLoop.simps [of _ _ _ 0] updateTimestamp_def
      maxSnapshotRefreshAttempts_def snapshotRefreshDelay_def maxSnapshotRefreshSeconds_def)

theorem getSnapshot_soft_failure_witness:
  "0 < length (calls (run [GetSnapshot False, RunSession 0 (\<lambda>k. Inl (TransportError ''timeout''))]
                       (RingCamera_new exampleData))) \<and>
   calls (run [GetSnapshot False, RunSession 0 (\<lambda>k. Inl (TransportError ''timeout''))]
            (RingCamera_new exampleData)) ! 0 = Awaiting 0 \<and>
   sessions (run [GetSnapshot False, RunSession 0 (\<lambda>k. Inl (TransportError ''timeout''))]
               (RingCamera_new exampleData)) ! 0 = settle (Inl (TransportError ''timeout'')) \<and>
   map_option fst (getSnapshot_resume 0 (Inr ''jpeg'')
       (run [GetSnapshot False, RunSession 0 (\<lambda>k. Inl (TransportError ''timeout''))]
          (RingCamera_new exampleData))) = Some (Inr ''jpeg'') \<and>
   map_option (effects \<circ> snd) (getSnapshot_resume 0 (Inr ''jpeg'')
       (run [GetSnapshot False, RunSession 0 (\<lambda>k. Inl (TransportError ''timeout''))]
          (RingCamera_new exampleData))) =
     Some [Request (timestampsRequest (RingCamera_new exampleData)),
           LogError (TransportError ''timeout''),
           Request \<lparr> req_method = None, req_url = clientApi ''snapshots/image/7'',
                   req_data = None, req_json = None,
                   req_responseType = Some ''arraybuffer'' \<rparr>] \<and>
   refreshSnapshotInProgress (RingCamera_new exampleData) = None \<and>
   fst (refreshSnapshot (\<lambda>k. sample 100 10100) False (RingCamera_new exampleData)) =
     Inl (Error ''Snapshot failed to refresh after 60 attempts'') \<and>
   map_option fst (getSnapshot False (\<lambda>k. sample 100 10100) (Inr ''jpeg'')
       (RingCamera_new exampleData)) = Some (Inr ''jpeg'') \<and>
   map_option (\<lambda>r. drop 120 (effects (snd r)))
       (getSnapshot False (\<lambda>k. sample 100 10100) (Inr ''jpeg'') (RingCamera_new exampleData)) =
     Some [LogError (Error ''Snapshot failed to refresh after 60 attempts''),
           Request \<lparr> req_method = None, req_url = clientApi ''snapshots/image/7'',
                   req_data = None, req_json = None,
                   req_responseType = Some ''arraybuffer'' \<rparr>]"
proof -
  let ?new = "RingCamera_new exampleData"
  let ?stale = "\<lambda>k::nat. sample 100 10100"
  let ?cam = "run [GetSnapshot False, RunSession 0 (\<lambda>k. Inl (TransportError ''timeout''))] ?new"
  have c: "calls ?cam = [Awaiting 0]" and s: "sessions ?cam = [Rejected (TransportError ''timeout'')]"
    and e0: "effects ?cam = [Request (timestampsRequest ?new)]" and i: "ident ?cam = 7" "ident ?new = 7"
    by (simp_all add: run_def getSnapshot_call_def runSession_def refreshSnapshot_first_error
        settle_def perform_def RingCamera_new_def timestampsRequest_def exampleData_def)
  have h1: "0 < length (calls ?cam)" "calls ?cam ! 0 = Awaiting 0" "0 < length (sessions ?cam)"
    "sessions ?cam ! 0 = settle (Inl (TransportError ''timeout''))"
    by (simp_all add: c s settle_def)
  have h2: "refreshSnapshotInProgress ?new = None"
    by (simp add: RingCamera_new_def)
  note t = getSnapshot_soft_failure [of 0 ?cam 0 "Inl (TransportError ''timeout'')" "Inr ''jpeg''"
      False ?stale, THEN conjunct1, rule_format,
      OF conjI [OF h1(1) conjI [OF h1(2) conjI [OF h1(3) h1(4)]]]]
  note u = getSnapshot_soft_failure [of 0 ?new 0 "Inl (TransportError ''timeout'')" "Inr ''jpeg''"
      False ?stale, THEN conjunct2, THEN conjunct1, rule_format, OF h2]
  have a: "map_option fst (getSnapshot_resume 0 (Inr ''jpeg'') ?cam) = Some (Inr ''jpeg'')"
    by (rule t [THEN conjunct1])
  have a': "map_option (effects \<circ> snd) (getSnapshot_resume 0 (Inr ''jpeg'') ?cam) =
     Some [Request (timestampsRequest ?new), LogError (TransportError ''timeout''),
           Request \<lparr> req_method = None, req_url = clientApi ''snapshots/image/7'',
                   req_data = None, req_json = None,
                   req_responseType = Some ''arraybuffer'' \<rparr>]"
    by (simp only: t [THEN conjunct2] e0 i showNat_7) simp
  have b: "map_option fst (getSnapshot False ?stale (Inr ''jpeg'') ?new) = Some (Inr ''jpeg'')"
    by (rule u [THEN conjunct1])
  have st: "staleBefore ?stale (maxSnapshotRefreshAttempts ?new False)"
    by (simp add: staleBefore_def sample_def timestampAge_def snapshotTimestampGracePeriod_def)
  note ex = refreshSnapshot_exhausted [OF st]
  have e: "fst (refreshSnapshot ?stale False ?new) =
      Inl (Error ''Snapshot failed to refresh after 60 attempts'')"
    by (simp add: ex maxSnapshotRefreshAttempts_example refreshFailed_def showNat_60)
  have en: "effects ?new = []"
    by (simp add: RingCamera_new_def)
  have len: "length (effects (snd (refreshSnapshot ?stale False ?new))) = 120"
    by (simp only: ex snd_conv)
       (simp add: en length_staleRounds maxSnapshotRefreshAttempts_example)
  have b': "map_option (\<lambda>r. drop 120 (effects (snd r)))
       (getSnapshot False ?stale (Inr ''jpeg'') ?new) =
     Some [LogError (Error ''Snapshot failed to refresh after 60 attempts''),
           Request \<lparr> req_method = None, req_url = clientApi ''snapshots/image/7'',
                   req_data = None, req_json = None,
                   req_responseType = Some ''arraybuffer'' \<rparr>]"
  proof -
    have "map_option (\<lambda>r. drop 120 (effects (snd r))) (getSnapshot False ?stale (Inr ''jpeg'') ?new)
        = map_option (drop 120) (map_option (effects \<circ> snd)
            (getSnapshot False ?stale (Inr ''jpeg'') ?new))"
      by (simp add: option.map_comp comp_def)
    also have "\<dots> = Some [LogError (Error ''Snapshot failed to refresh after 60 attempts''),
           Request \<lparr> req_method = None, req_url = clientApi ''snapshots/image/7'',
                   req_data = None, req_json = None,
                   req_responseType = Some ''arraybuffer'' \<rparr>]"
      by (simp only: u [THEN conjunct2] e i showNat_7) (simp add: len)
    finally show ?thesis .
  qed
  from h1(1,2,4) a a' h2 e b b' show ?thesis
    by (intro conjI)
qed

subsection \<open>Coalescing of refresh sessions\<close>

lemma view_GetSnapshot:
  "view (step cam (GetSnapshot allowStale)) =
     (case view cam of
        (None, ss, cs) \<Rightarrow> (Some (length ss), ss @ [Pending allowStale], cs @ [Awaiting (length ss)])
      | (Some s, ss, cs) \<Rightarrow> (Some s, ss, cs @ [Awaiting s]))"
  by (simp add: view_def getSnapshot_call_def split: option.splits)

lemma view_RunSession:
  "view (step cam (RunSession s responses)) =
     (case view cam of
        (slot, ss, cs) \<Rightarrow>
          (slot,
           if s < length ss then
             (case ss ! s of
                Pending allowStale \<Rightarrow> ss[s := settle (fst (refreshSnapshot responses allowStale cam))]
              | _ \<Rightarrow> ss)
           else ss,
           cs))"
proof -
  have run: "view (case refreshSnapshot responses a cam of
                (outcome, cam') \<Rightarrow> cam'\<lparr>sessions := (sessions cam')[s := settle outcome]\<rparr>) =
        (refreshSnapshotInProgress cam,
         (sessions cam)[s := settle (fst (refreshSnapshot responses a cam))], calls cam)" for a
    by (subst refreshSnapshot_effects_only) (simp add: view_def)
  show ?thesis
  proof (cases "s < length (sessions cam)")
    case False
    then show ?thesis
      by (simp add: runSession_def view_def)
  next
    case True
    show ?thesis
    proof (cases "sessions cam ! s")
      case (Pending a)
      have "view (runSession s responses cam) =
          (refreshSnapshotInProgress cam,
           (sessions cam)[s := settle (fst (refreshSnapshot responses a cam))], calls cam)"
        using True Pending run [of a] by (simp add: runSession_def)
      then show ?thesis
        using True Pending by (simp add: view_def)
    next
      case Fulfilled
      then show ?thesis
        using True by (simp add: runSession_def view_def)
    next
      case (Rejected e)
      then show ?thesis
        using True by (simp add: runSession_def view_def)
    qed
  qed
qed

lemma view_Resume:
  "view (step cam (Resume c imageResponse)) =
     (case view cam of
        (slot, ss, cs) \<Rightarrow>
          if c < length cs then
            (case cs ! c of
               Awaiting s \<Rightarrow>
                 if s < length ss \<and> \<not> isPending (ss ! s) then (None, ss, cs[c := Returned])
                 else (slot, ss, cs)
             | Returned \<Rightarrow> (slot, ss, cs))
          else (slot, ss, cs))"
  by (simp add: view_def getSnapshot_resume_def isPending_def perform_def Let_def
      split: call.splits promise.splits)

lemma fresh_outcome:
  "fst (refreshSnapshot (\<lambda>k. sample 100 10099) allowStale cam) = Inr ()"
  by (simp add: refreshSnapshot_first_fresh)

lemma at_most_one:
  assumes "\<And>i j. i < length xs \<Longrightarrow> j < length xs \<Longrightarrow> P (xs ! i) \<Longrightarrow> P (xs ! j) \<Longrightarrow> i = j"
  shows "length (filter P xs) \<le> 1"
  using assms
proof (induction xs)
  case Nil
  then show ?case by simp
next
  case (Cons x xs)
  have rest: "i = j" if "i < length xs" "j < length xs" "P (xs ! i)" "P (xs ! j)" for i j
    using Cons.prems [of "Suc i" "Suc j"] that by simp
  show ?case
  proof (cases "P x")
    case False
    then show ?thesis using Cons.IH [OF rest] by simp
  next
    case True
    have "\<not> P (xs ! k)" if "k < length xs" for k
      using Cons.prems [of 0 "Suc k"] that True by auto
    then have "filter P xs = []"
      by (auto simp add: filter_empty_conv in_set_conv_nth)
    then show ?thesis using True by simp
  qed
qed

lemma coalesced_inFlight:
  assumes "coalesced cam"
  shows "inFlight cam \<le> 1"
  unfolding inFlight_def
proof (rule at_most_one)
  fix i j
  assume "i < length (sessions cam)" "j < length (sessions cam)"
    "isPending (sessions cam ! i)" "isPending (sessions cam ! j)"
  with assms have "refreshSnapshotInProgress cam = Some i" "refreshSnapshotInProgress cam = Some j"
    unfolding coalesced_def by blast+
  then show "i = j" by simp
qed

lemma coalesced_view:
  "coalesced cam =
     (case view cam of
        (slot, ss, cs) \<Rightarrow>
          (\<forall>s < length ss. isPending (ss ! s) \<longrightarrow> slot = Some s) \<and>
          (\<forall>s. slot = Some s \<longrightarrow> s < length ss))"
  by (simp add: coalesced_def view_def)

lemma coalesced_step:
  assumes "coalesced cam" and "inOrder cam ev"
  shows "coalesced (step cam ev)"
proof -
  from assms(1)
  have A: "\<And>s. s < length (sessions cam) \<Longrightarrow> isPending (sessions cam ! s) \<Longrightarrow>
             refreshSnapshotInProgress cam = Some s"
    and B: "\<And>s. refreshSnapshotInProgress cam = Some s \<Longrightarrow> s < length (sessions cam)"
    unfolding coalesced_def by blast+
  have goal: "coalesced (step cam ev)"
    if v: "view (step cam ev) = (slot, ss, cs)"
      and a: "\<And>s. s < length ss \<Longrightarrow> isPending (ss ! s) \<Longrightarrow> slot = Some s"
      and b: "\<And>s. slot = Some s \<Longrightarrow> s < length ss" for slot ss cs
  proof -
    from v have "refreshSnapshotInProgress (step cam ev) = slot" "sessions (step cam ev) = ss"
      by (simp_all add: view_def)
    then show ?thesis
      unfolding coalesced_def using a b by blast
  qed
  show ?thesis
  proof (cases ev)
    case (GetSnapshot allowStale)
    show ?thesis
    proof (cases "refreshSnapshotInProgress cam")
      case None
      have np: "\<not> isPending (sessions cam ! s)" if "s < length (sessions cam)" for s
      proof
        assume "isPending (sessions cam ! s)"
        with that have "refreshSnapshotInProgress cam = Some s" by (rule A)
        with None show False by simp
      qed
      have v: "view (step cam ev) =
          (Some (length (sessions cam)), sessions cam @ [Pending allowStale],
           calls cam @ [Awaiting (length (sessions cam))])"
        by (simp only: GetSnapshot view_GetSnapshot) (simp add: view_def None)
      show ?thesis
      proof (rule goal [OF v])
        fix s
        assume "s < length (sessions cam @ [Pending allowStale])"
          and "isPending ((sessions cam @ [Pending allowStale]) ! s)"
        then show "Some (length (sessions cam)) = Some s"
          using np [of s] by (cases "s < length (sessions cam)") (auto simp add: nth_append)
      next
        fix s
        assume "Some (length (sessions cam)) = Some s"
        then show "s < length (sessions cam @ [Pending allowStale])" by auto
      qed
    next
      case (Some s)
      have v: "view (step cam ev) = (Some s, sessions cam, calls cam @ [Awaiting s])"
        by (simp only: GetSnapshot view_GetSnapshot) (simp add: view_def Some)
      show ?thesis
      proof (rule goal [OF v])
        fix k
        assume "k < length (sessions cam)" "isPending (sessions cam ! k)"
        then have "refreshSnapshotInProgress cam = Some k" by (rule A)
        then show "Some s = Some k" by (simp only: Some)
      next
        fix k
        assume "Some s = Some k"
        then have "refreshSnapshotInProgress cam = Some k" by (simp only: Some)
        then show "k < length (sessions cam)" by (rule B)
      qed
    qed
  next
    case (RunSession s responses)
    have "\<exists>ss'. view (step cam ev) = (refreshSnapshotInProgress cam, ss', calls cam) \<and>
        length ss' = length (sessions cam) \<and>
        (\<forall>k < length ss'. isPending (ss' ! k) \<longrightarrow> isPending (sessions cam ! k))"
    proof (cases "s < length (sessions cam)")
      case False
      then have "view (step cam ev) = (refreshSnapshotInProgress cam, sessions cam, calls cam)"
        by (simp only: RunSession view_RunSession) (simp add: view_def)
      then show ?thesis by blast
    next
      case True
      show ?thesis
      proof (cases "sessions cam ! s")
        case (Pending a)
        let ?ss = "(sessions cam)[s := settle (fst (refreshSnapshot responses a cam))]"
        have "view (step cam ev) = (refreshSnapshotInProgress cam, ?ss, calls cam)"
          by (simp only: RunSession view_RunSession) (simp add: view_def True Pending)
        moreover have "isPending (sessions cam ! k)" if "k < length ?ss" "isPending (?ss ! k)" for k
        proof (cases "k = s")
          case True
          with that have "isPending (settle (fst (refreshSnapshot responses a cam)))"
            by simp
          then show ?thesis
            by (cases "fst (refreshSnapshot responses a cam)") (simp_all add: settle_def isPending_def)
        next
          case False
          with that show ?thesis by simp
        qed
        ultimately show ?thesis
          by (intro exI [of _ ?ss]) simp
      next
        case Fulfilled
        then have "view (step cam ev) = (refreshSnapshotInProgress cam, sessions cam, calls cam)"
          using True by (simp only: RunSession view_RunSession) (simp add: view_def)
        then show ?thesis by blast
      next
        case (Rejected e)
        then have "view (step cam ev) = (refreshSnapshotInProgress cam, sessions cam, calls cam)"
          using True by (simp only: RunSession view_RunSession) (simp add: view_def)
        then show ?thesis by blast
      qed
    qed
    then obtain ss' where v: "view (step cam ev) = (refreshSnapshotInProgress cam, ss', calls cam)"
      and len: "length ss' = length (sessions cam)"
      and pend: "\<And>k. k < length ss' \<Longrightarrow> isPending (ss' ! k) \<Longrightarrow> isPending (sessions cam ! k)"
      by blast
    show ?thesis
    proof (rule goal [OF v])
      fix k
      assume "k < length ss'" "isPending (ss' ! k)"
      then have "k < length (sessions cam)" "isPending (sessions cam ! k)"
        using pend [of k] len by simp_all
      then show "refreshSnapshotInProgress cam = Some k" by (rule A)
    next
      fix k
      assume "refreshSnapshotInProgress cam = Some k"
      then have "k < length (sessions cam)" by (rule B)
      then show "k < length ss'" by (simp add: len)
    qed
  next
    case (Resume c imageResponse)
    have "view (step cam ev) = view cam \<or> (\<exists>cs'. view (step cam ev) = (None, sessions cam, cs'))"
      by (simp only: Resume view_Resume)
         (auto simp add: view_def split: if_splits call.splits)
    then show ?thesis
    proof
      assume "view (step cam ev) = view cam"
      then have v: "view (step cam ev) = (refreshSnapshotInProgress cam, sessions cam, calls cam)"
        by (simp add: view_def)
      show ?thesis
      proof (rule goal [OF v])
        fix k
        assume "k < length (sessions cam)" "isPending (sessions cam ! k)"
        then show "refreshSnapshotInProgress cam = Some k" by (rule A)
      next
        fix k
        assume "refreshSnapshotInProgress cam = Some k"
        then show "k < length (sessions cam)" by (rule B)
      qed
    next
      assume "\<exists>cs'. view (step cam ev) = (None, sessions cam, cs')"
      then obtain cs' where v: "view (step cam ev) = (None, sessions cam, cs')" ..
      have quiet: "\<not> isPending (sessions cam ! s)" if "s < length (sessions cam)" for s
      proof
        assume p: "isPending (sessions cam ! s)"
        with that have slot: "refreshSnapshotInProgress cam = Some s" by (rule A)
        with assms(2) Resume have "\<not> isPending (sessions cam ! s)"
          by (simp add: inOrder_def)
        with p show False by simp
      qed
      show ?thesis
      proof (rule goal [OF v])
        fix k
        assume "k < length (sessions cam)" "isPending (sessions cam ! k)"
        then show "None = Some k" using quiet [of k] by blast
      next
        fix k :: nat
        assume "None = Some k"
        then show "k < length (sessions cam)" by simp
      qed
    qed
  qed
qed

lemma coalesced_run:
  "coalesced cam \<Longrightarrow> inOrderRun cam schedule \<Longrightarrow> coalesced (run schedule cam)"
  unfolding run_def
  by (induction schedule arbitrary: cam) (simp_all add: coalesced_step)

lemma coalesced_new: "coalesced (RingCamera_new initialData)"
  by (simp add: coalesced_def RingCamera_new_def)

lemma inFlight_inOrderRun:
  "inOrderRun (RingCamera_new initialData) schedule \<Longrightarrow>
     inFlight (run schedule (RingCamera_new initialData)) \<le> 1"
  by (intro coalesced_inFlight coalesced_run coalesced_new)

text \<open>
  Claim C3. A call that finds a session in the slot awaits it and starts none, a call
  that finds the slot empty starts one, and every caller that resumes empties the slot;
  as long as callers resume in order, at most one session is pending (lemma
  \<open>inFlight_inOrderRun\<close>). The slot is emptied without a look at what it holds,
  though. In the schedule \<open>overlapSchedule\<close> caller B resumes after C has put session 1
  into the slot, and empties it while session 1 is pending; the next call D starts
  session 2, and two sessions of the one camera are pending together.
\<close>

theorem getSnapshot_overlapping_sessions:
  "view (run overlapPrefix (RingCamera_new exampleData)) =
     (None, [Fulfilled, Pending False], [Returned, Returned, Awaiting 1]) \<and>
   view (run overlapSchedule (RingCamera_new exampleData)) =
     (Some 2, [Fulfilled, Pending False, Pending False],
      [Returned, Returned, Awaiting 1, Awaiting 2]) \<and>
   inFlight (run overlapSchedule (RingCamera_new exampleData)) = 2"
proof -
  let ?fresh = "\<lambda>k::nat. sample 100 10099"
  let ?a = "step (RingCamera_new exampleData) (GetSnapshot False)"
  let ?b = "step ?a (RunSession 0 ?fresh)"
  let ?c = "step ?b (GetSnapshot False)"
  let ?d = "step ?c (Resume 0 (Inr ''jpeg''))"
  let ?e = "step ?d (GetSnapshot False)"
  let ?f = "step ?e (Resume 1 (Inr ''jpeg''))"
  let ?g = "step ?f (GetSnapshot False)"
  have v0: "view (RingCamera_new exampleData) = (None, [], [])"
    by (simp add: view_def RingCamera_new_def)
  have va: "view ?a = (Some 0, [Pending False], [Awaiting 0])"
    by (simp only: view_GetSnapshot v0) simp
  have vb: "view ?b = (Some 0, [Fulfilled], [Awaiting 0])"
    by (simp only: view_RunSession va) (simp add: fresh_outcome settle_def)
  have vc: "view ?c = (Some 0, [Fulfilled], [Awaiting 0, Awaiting 0])"
    by (simp only: view_GetSnapshot vb) simp
  have vd: "view ?d = (None, [Fulfilled], [Returned, Awaiting 0])"
    by (simp only: view_Resume vc) (simp add: isPending_def)
  have ve: "view ?e = (Some 1, [Fulfilled, Pending False], [Returned, Awaiting 0, Awaiting 1])"
    by (simp only: view_GetSnapshot vd) simp
  have vf: "view ?f = (None, [Fulfilled, Pending False], [Returned, Returned, Awaiting 1])"
    by (simp only: view_Resume ve) (simp add: isPending_def)
  have vg: "view ?g = (Some 2, [Fulfilled, Pending False, Pending False],
      [Returned, Returned, Awaiting 1, Awaiting 2])"
    by (simp only: view_GetSnapshot vf) simp
  have r6: "run overlapPrefix (RingCamera_new exampleData) = ?f"
    by (simp only: overlapPrefix_def run_def foldl.simps)
  have r7: "run overlapSchedule (RingCamera_new exampleData) = ?g"
    by (simp only: overlapSchedule_def overlapPrefix_def run_def foldl.simps append.simps)
  have "sessions ?g = [Fulfilled, Pending False, Pending False]"
    using vg by (simp only: view_def prod.inject)
  then have i: "inFlight ?g = 2"
    by (simp add: inFlight_def isPending_def)
  show ?thesis
    by (simp only: r6 r7 vf vg i simp_thms)
qed



end
